theory Spec2Isabelle
  imports Main "HOL-Library.Log_Nat"
begin

text \<open>
  A model of server.js of the Network Utility App: the host validator, the command
  runner, the parser of ping output, the ping and traceroute handlers and the download and
  upload handlers of the speed test, with the parts of JavaScript they rest on (strings,
  Numbers, regular expressions).
\<close>

section \<open>JavaScript strings\<close>

text \<open>
  A JavaScript string is a sequence of UTF-16 code units. A code unit is modelled as a
  natural number (below 65536 in every real string); no arithmetic is done on code units,
  they are only compared. \<open>js\<close> turns an ASCII literal into its code units.
\<close>

type_synonym jschar = nat
type_synonym jsstring = "jschar list"

definition js :: "string \<Rightarrow> jsstring" where
  "js s = map of_char s"

text \<open>
  ECMAScript \<open>WhiteSpace\<close> and \<open>LineTerminator\<close>: the code units that
  \<open>String.prototype.trim\<close> strips, that \<open>\s\<close> matches and that \<open>.\<close>
  (for the line terminators) does not match.
\<close>

definition isWhiteSpace :: "jschar \<Rightarrow> bool" where
  "isWhiteSpace c \<longleftrightarrow>
     c = 9 \<or> c = 11 \<or> c = 12 \<or> c = 32 \<or> c = 160 \<or> c = 5760 \<or>
     (8192 \<le> c \<and> c \<le> 8202) \<or> c = 8239 \<or> c = 8287 \<or> c = 12288 \<or> c = 65279"

definition isLineTerminator :: "jschar \<Rightarrow> bool" where
  "isLineTerminator c \<longleftrightarrow> c = 10 \<or> c = 13 \<or> c = 8232 \<or> c = 8233"

definition isSpace :: "jschar \<Rightarrow> bool" where
  "isSpace c \<longleftrightarrow> isWhiteSpace c \<or> isLineTerminator c"

definition isDigit :: "jschar \<Rightarrow> bool" where
  "isDigit c \<longleftrightarrow> 48 \<le> c \<and> c \<le> 57"

definition trim :: "jsstring \<Rightarrow> jsstring" where
  "trim s = rev (dropWhile isSpace (rev (dropWhile isSpace s)))"

section \<open>JavaScript numbers\<close>

text \<open>
  A Number is an IEEE 754 double: NaN, an infinity, or a finite value, kept as the
  rational it denotes. Negative zero is not told apart from zero: nothing modelled here
  divides by a zero it computed or prints a zero's sign.
\<close>

datatype jsnumber = NaN | PosInf | NegInf | Fin rat

text \<open>
  Rounding a rational to the nearest double, ties to even. \<open>ilog2 q\<close> is the binary
  exponent of a positive \<open>q\<close>; a double has 53 significant bits, exponents from
  -1022 (below that the subnormal spacing 2^-1074 stays) to 1023, and a result that
  rounds to 2^1024 or more is an infinity.
\<close>

definition ilog2 :: "rat \<Rightarrow> int" where
  "ilog2 q =
     (let (n, d) = quotient_of q;
          e = int (floorlog 2 (nat n)) - int (floorlog 2 (nat d))
      in if power_int 2 e \<le> q then e else e - 1)"

definition round_even :: "rat \<Rightarrow> int" where
  "round_even x =
     (let f = \<lfloor>x\<rfloor>; r = x - of_int f
      in if r < 1 / 2 then f else if 1 / 2 < r then f + 1 else if even f then f else f + 1)"

definition rnd :: "rat \<Rightarrow> jsnumber" where
  "rnd q =
     (if q = 0 then Fin 0
      else
        let a = \<bar>q\<bar>;
            e = max (ilog2 a) (- 1022);
            ulp = power_int 2 (e - 52);
            v = of_int (round_even (a / ulp)) * ulp
        in if power_int 2 1024 \<le> v then (if q < 0 then NegInf else PosInf)
           else Fin (sgn q * v))"

text \<open>
  The rationals that are doubles: 0, and below 2^1024 the integer multiples of the
  spacing at their exponent. (A predicate of the proofs: \<open>rnd\<close> leaves exactly these
  unchanged.)
\<close>

definition representable :: "rat \<Rightarrow> bool" where
  "representable q \<longleftrightarrow>
     q = 0 \<or> (\<bar>q\<bar> < 2 powi 1024 \<and>
       (\<exists>m. \<bar>q\<bar> = of_int m * 2 powi (max (ilog2 \<bar>q\<bar>) (- 1022) - 52)))"

text \<open>
  A double nearest to a rational \<open>q\<close>: a double such that no double is closer to
  \<open>q\<close>. (Another predicate of the proofs: \<open>rnd\<close> gives such a double.)
\<close>

definition nearest_double :: "rat \<Rightarrow> rat \<Rightarrow> bool" where
  "nearest_double q x \<longleftrightarrow>
     representable x \<and> (\<forall>d. representable d \<longrightarrow> \<bar>x - q\<bar> \<le> \<bar>d - q\<bar>)"

text \<open>
  The operators \<open>/\<close>, \<open>*\<close> and \<open>-\<close> on Numbers: the exact result, rounded, with
  the cases of IEEE 754 for NaN, the infinities and a zero divisor.
\<close>

fun fdiv :: "jsnumber \<Rightarrow> jsnumber \<Rightarrow> jsnumber" where
  "fdiv NaN _ = NaN"
| "fdiv _ NaN = NaN"
| "fdiv (Fin a) (Fin b) =
     (if b = 0 then (if a = 0 then NaN else if 0 < a then PosInf else NegInf)
      else rnd (a / b))"
| "fdiv (Fin a) _ = Fin 0"
| "fdiv PosInf (Fin b) = (if b < 0 then NegInf else PosInf)"
| "fdiv NegInf (Fin b) = (if b < 0 then PosInf else NegInf)"
| "fdiv _ _ = NaN"

fun fmul :: "jsnumber \<Rightarrow> jsnumber \<Rightarrow> jsnumber" where
  "fmul NaN _ = NaN"
| "fmul _ NaN = NaN"
| "fmul (Fin a) (Fin b) = rnd (a * b)"
| "fmul (Fin a) PosInf = (if a = 0 then NaN else if 0 < a then PosInf else NegInf)"
| "fmul (Fin a) NegInf = (if a = 0 then NaN else if 0 < a then NegInf else PosInf)"
| "fmul PosInf (Fin b) = (if b = 0 then NaN else if 0 < b then PosInf else NegInf)"
| "fmul NegInf (Fin b) = (if b = 0 then NaN else if 0 < b then NegInf else PosInf)"
| "fmul PosInf PosInf = PosInf"
| "fmul NegInf NegInf = PosInf"
| "fmul _ _ = NegInf"

fun fsub :: "jsnumber \<Rightarrow> jsnumber \<Rightarrow> jsnumber" where
  "fsub NaN _ = NaN"
| "fsub _ NaN = NaN"
| "fsub (Fin a) (Fin b) = rnd (a - b)"
| "fsub (Fin a) PosInf = NegInf"
| "fsub (Fin a) NegInf = PosInf"
| "fsub PosInf PosInf = NaN"
| "fsub NegInf NegInf = NaN"
| "fsub PosInf _ = PosInf"
| "fsub NegInf _ = NegInf"

text \<open>
  \<open>a < b\<close> on Numbers (and \<open>b > a\<close>): false as soon as one side is NaN.
\<close>

fun fless :: "jsnumber \<Rightarrow> jsnumber \<Rightarrow> bool" where
  "fless NaN _ = False"
| "fless _ NaN = False"
| "fless (Fin a) (Fin b) = (a < b)"
| "fless NegInf NegInf = False"
| "fless NegInf _ = True"
| "fless _ NegInf = False"
| "fless PosInf _ = False"
| "fless _ PosInf = True"

text \<open>
  \<open>Math.min\<close> and \<open>Math.max\<close> of two arguments give NaN as soon as one is NaN;
  \<open>Math.round\<close> rounds to the nearest integer, a tie upwards (the result of a finite
  double is a double again).
\<close>

definition MathMin :: "jsnumber \<Rightarrow> jsnumber \<Rightarrow> jsnumber" where
  "MathMin a b = (if a = NaN \<or> b = NaN then NaN else if fless b a then b else a)"

definition MathMax :: "jsnumber \<Rightarrow> jsnumber \<Rightarrow> jsnumber" where
  "MathMax a b = (if a = NaN \<or> b = NaN then NaN else if fless a b then b else a)"

fun MathRound :: "jsnumber \<Rightarrow> jsnumber" where
  "MathRound (Fin q) = Fin (of_int \<lfloor>q + 1 / 2\<rfloor>)"
| "MathRound n = n"

text \<open>
  \<open>Number(s)\<close> for a string \<open>s\<close> (StringToNumber): surrounding white space is
  dropped; the empty string is 0; a hexadecimal, octal or binary literal has no sign; a
  decimal literal is an optional sign, then \<open>Infinity\<close> or digits with an optional
  fraction and an optional exponent; anything else is NaN. The value of a literal is
  rounded to the nearest double (as V8 does for every literal; ECMAScript leaves the
  choice between the two neighbouring doubles open after the 20th significant digit).
\<close>

definition digitVal :: "jschar \<Rightarrow> nat" where
  "digitVal c = (if isDigit c then c - 48 else if 97 \<le> c then c - 87 else c - 55)"

definition isRadixDigit :: "nat \<Rightarrow> jschar \<Rightarrow> bool" where
  "isRadixDigit b c \<longleftrightarrow>
     (isDigit c \<or> (97 \<le> c \<and> c \<le> 102) \<or> (65 \<le> c \<and> c \<le> 70)) \<and> digitVal c < b"

definition radix_val :: "nat \<Rightarrow> jsstring \<Rightarrow> nat" where
  "radix_val b ds = foldl (\<lambda>acc c. acc * b + digitVal c) 0 ds"

definition radix_prefix :: "jsstring \<Rightarrow> (nat \<times> jsstring) option" where
  "radix_prefix t =
     (case t of
        z # x # ds \<Rightarrow>
          if z \<noteq> 48 then None
          else if x = 120 \<or> x = 88 then Some (16, ds)
          else if x = 111 \<or> x = 79 then Some (8, ds)
          else if x = 98 \<or> x = 66 then Some (2, ds)
          else None
      | _ \<Rightarrow> None)"

definition parse_exponent :: "jsstring \<Rightarrow> int option" where
  "parse_exponent r =
     (case r of
        [] \<Rightarrow> Some 0
      | c # cs \<Rightarrow>
          if c \<noteq> 101 \<and> c \<noteq> 69 then None
          else
            let (neg, ds) =
                  (case cs of
                     [] \<Rightarrow> (False, [])
                   | d # ds' \<Rightarrow>
                       if d = 43 then (False, ds') else if d = 45 then (True, ds') else (False, cs))
            in if ds = [] \<or> \<not> list_all isDigit ds then None
               else Some (if neg then - int (radix_val 10 ds) else int (radix_val 10 ds)))"

definition parse_decimal :: "jsstring \<Rightarrow> rat option" where
  "parse_decimal s =
     (let ip = takeWhile isDigit s;
          r1 = dropWhile isDigit s;
          (fp, r2) =
            (case r1 of
               [] \<Rightarrow> ([], [])
             | c # cs \<Rightarrow>
                 if c = 46 then (takeWhile isDigit cs, dropWhile isDigit cs) else ([], r1))
      in if ip = [] \<and> fp = [] then None
         else
           (case parse_exponent r2 of
              None \<Rightarrow> None
            | Some e \<Rightarrow>
                Some ((of_nat (radix_val 10 ip) + of_nat (radix_val 10 fp) / 10 ^ length fp)
                      * power_int 10 e)))"

definition StringToNumber :: "jsstring \<Rightarrow> jsnumber" where
  "StringToNumber s =
     (let t = trim s in
      if t = [] then Fin 0
      else
        (case radix_prefix t of
           Some (b, ds) \<Rightarrow>
             if ds \<noteq> [] \<and> list_all (isRadixDigit b) ds then rnd (of_nat (radix_val b ds))
             else NaN
         | None \<Rightarrow>
             let (neg, r) =
                   (case t of
                      [] \<Rightarrow> (False, t)
                    | c # cs \<Rightarrow>
                        if c = 43 then (False, cs) else if c = 45 then (True, cs) else (False, t))
             in if r = js ''Infinity'' then (if neg then NegInf else PosInf)
                else
                  (case parse_decimal r of
                     None \<Rightarrow> NaN
                   | Some q \<Rightarrow> rnd (if neg then - q else q))))"

section \<open>JavaScript values\<close>

datatype jsval =
    JUndefined
  | JNull
  | JBool bool
  | JNum jsnumber
  | JStr jsstring
  | JArr "jsval list"
  | JObj "(jsstring \<times> jsval) list"

section \<open>Regular expressions\<close>

text \<open>
  The regular expressions of server.js use literal characters, character classes, the
  quantifiers \<open>*\<close>, \<open>+\<close> and \<open>*?\<close> on a single class, alternation, capturing
  groups and the anchors \<open>^\<close> and \<open>$\<close> (without the \<open>m\<close> flag: start and end of
  the input). \<open>rmatch\<close> is the backtracking matcher as a list of successes, in the
  order in which a backtracking engine tries them: a greedy quantifier takes the longest
  run first, a lazy one the shortest, an alternation its left branch first. The head of
  the list is the match the engine reports.
\<close>

datatype rx =
    Eps
  | Bol
  | Eol
  | Chr jschar
  | Cls "jschar \<Rightarrow> bool"
  | Star "jschar \<Rightarrow> bool"
  | Plus "jschar \<Rightarrow> bool"
  | LazyStar "jschar \<Rightarrow> bool"
  | Cat rx rx
  | Alt rx rx
  | Grp nat rx

type_synonym caps = "(nat \<times> jsstring) list"

text \<open>
  Canonicalisation under the \<open>i\<close> flag (no \<open>u\<close> flag). Every literal of server.js is
  ASCII, and a code unit above 127 never canonicalises to an ASCII one, so only the
  ASCII letters need folding.
\<close>

definition canon :: "jschar \<Rightarrow> jschar" where
  "canon c = (if 97 \<le> c \<and> c \<le> 122 then c - 32 else c)"

definition chr_eq :: "bool \<Rightarrow> jschar \<Rightarrow> jschar \<Rightarrow> bool" where
  "chr_eq ic a x = (if ic then canon a = canon x else a = x)"

fun rmatch :: "bool \<Rightarrow> jsstring \<Rightarrow> rx \<Rightarrow> caps \<times> jsstring \<Rightarrow> (caps \<times> jsstring) list" where
  "rmatch ic inp Eps st = [st]"
| "rmatch ic inp Bol (c, r) = (if length r = length inp then [(c, r)] else [])"
| "rmatch ic inp Eol (c, r) = (if r = [] then [(c, r)] else [])"
| "rmatch ic inp (Chr a) (c, r) =
     (case r of [] \<Rightarrow> [] | x # xs \<Rightarrow> if chr_eq ic a x then [(c, xs)] else [])"
| "rmatch ic inp (Cls p) (c, r) =
     (case r of [] \<Rightarrow> [] | x # xs \<Rightarrow> if p x then [(c, xs)] else [])"
| "rmatch ic inp (Star p) (c, r) =
     map (\<lambda>k. (c, drop k r)) (rev [0 ..< Suc (length (takeWhile p r))])"
| "rmatch ic inp (Plus p) (c, r) =
     map (\<lambda>k. (c, drop k r)) (rev [1 ..< Suc (length (takeWhile p r))])"
| "rmatch ic inp (LazyStar p) (c, r) =
     map (\<lambda>k. (c, drop k r)) [0 ..< Suc (length (takeWhile p r))]"
| "rmatch ic inp (Cat a b) st = concat (map (rmatch ic inp b) (rmatch ic inp a st))"
| "rmatch ic inp (Alt a b) st = rmatch ic inp a st @ rmatch ic inp b st"
| "rmatch ic inp (Grp n a) (c, r) =
     map (\<lambda>(c', r'). ((n, take (length r - length r') r) # c', r')) (rmatch ic inp a (c, r))"

text \<open>
  \<open>exec_at\<close> tries the start positions from left to right; \<open>rx_exec\<close> is
  \<open>String.prototype.match\<close> for a regular expression without the \<open>g\<close> flag (the
  captures of the first match, or null), \<open>rx_test\<close> is \<open>RegExp.prototype.test\<close>.
\<close>

fun exec_at :: "bool \<Rightarrow> jsstring \<Rightarrow> rx \<Rightarrow> jsstring \<Rightarrow> caps option" where
  "exec_at ic inp re [] =
     (case rmatch ic inp re ([], []) of [] \<Rightarrow> None | (c, _) # _ \<Rightarrow> Some c)"
| "exec_at ic inp re (x # xs) =
     (case rmatch ic inp re ([], x # xs) of
        [] \<Rightarrow> exec_at ic inp re xs
      | (c, _) # _ \<Rightarrow> Some c)"

definition rx_exec :: "bool \<Rightarrow> rx \<Rightarrow> jsstring \<Rightarrow> caps option" where
  "rx_exec ic re s = exec_at ic s re s"

definition rx_test :: "bool \<Rightarrow> rx \<Rightarrow> jsstring \<Rightarrow> bool" where
  "rx_test ic re s \<longleftrightarrow> rx_exec ic re s \<noteq> None"

fun seq :: "rx list \<Rightarrow> rx" where
  "seq [] = Eps"
| "seq [r] = r"
| "seq (r # rs) = Cat r (seq rs)"

definition lit :: "string \<Rightarrow> rx" where
  "lit s = seq (map Chr (js s))"

text \<open>
  For the proofs: a regular expression without a capturing group; one whose capturing
  groups all have the form \<open>(p+)\<close> for the same class \<open>p\<close> and stand under no
  alternative, so that every group takes part in every match; and the numbers of the
  groups, the last one first (the order in which \<open>rmatch\<close> records them).
\<close>

fun nogroup :: "rx \<Rightarrow> bool" where
  "nogroup (Grp n a) = False"
| "nogroup (Cat a b) = (nogroup a \<and> nogroup b)"
| "nogroup (Alt a b) = (nogroup a \<and> nogroup b)"
| "nogroup _ = True"

fun plus_class :: "rx \<Rightarrow> (jschar \<Rightarrow> bool) option" where
  "plus_class (Plus p) = Some p"
| "plus_class _ = None"

fun groups_of :: "(jschar \<Rightarrow> bool) \<Rightarrow> rx \<Rightarrow> bool" where
  "groups_of p (Grp n a) = (plus_class a = Some p)"
| "groups_of p (Cat a b) = (groups_of p a \<and> groups_of p b)"
| "groups_of p (Alt a b) = (nogroup a \<and> nogroup b)"
| "groups_of p _ = True"

fun group_ids :: "rx \<Rightarrow> nat list" where
  "group_ids (Grp n a) = [n]"
| "group_ids (Cat a b) = group_ids b @ group_ids a"
| "group_ids _ = []"

definition isDot :: "jschar \<Rightarrow> bool" where
  "isDot c \<longleftrightarrow> \<not> isLineTerminator c"

section \<open>Host validator\<close>

text \<open>
  \<open>/^[A-Za-z0-9.\-:]+$/\<close>: the class is the letters, the digits, the dot (46),
  the hyphen (45) and the colon (58).
\<close>

definition hostChar :: "jschar \<Rightarrow> bool" where
  "hostChar c \<longleftrightarrow>
     (65 \<le> c \<and> c \<le> 90) \<or> (97 \<le> c \<and> c \<le> 122) \<or> (48 \<le> c \<and> c \<le> 57) \<or>
     c = 46 \<or> c = 45 \<or> c = 58"

definition hostRe :: rx where
  "hostRe = seq [Bol, Plus hostChar, Eol]"

text \<open>
  \<open>validateHost\<close> of server.js; \<open>None\<close> is its \<open>null\<close>. An empty string is falsy,
  so \<open>!host\<close> holds exactly for the empty trimmed string.
\<close>

fun validateHost :: "jsval \<Rightarrow> jsstring option" where
  "validateHost (JStr input) =
     (let host = trim input in
      if host = [] \<or> length host > 255 then None
      else if \<not> rx_test False hostRe host then None
      else Some host)"
| "validateHost _ = None"

section \<open>Command runner\<close>

text \<open>
  \<open>runCommand\<close> of server.js registers four callbacks and a timer; what happens next is
  decided by the order in which the runtime delivers the events. The closure variables
  \<open>stdout\<close>, \<open>stderr\<close> and \<open>finished\<close> are the fields \<open>stdout_acc\<close>,
  \<open>stderr_acc\<close> and \<open>finished\<close> of the state; \<open>timer_pending\<close> says that the
  timer is set and neither fired nor cleared; \<open>kills\<close> counts the calls of
  \<open>child.kill('SIGKILL')\<close>; \<open>resolved\<close> lists the arguments of the calls of
  \<open>resolve\<close>, oldest first. A data event carries the decoded text of its buffer, an
  error event the text \<open>String(err)\<close>, a close event the exit code (null when a signal
  ended the process).
\<close>

record CommandResult =
  code :: "int option"
  stdout :: jsstring
  stderr :: jsstring
  timedOut :: bool

datatype event =
    TimerFires
  | StdoutData jsstring
  | StderrData jsstring
  | ErrorEvent jsstring
  | CloseEvent "int option"

record runner =
  stdout_acc :: jsstring
  stderr_acc :: jsstring
  finished :: bool
  timer_pending :: bool
  kills :: nat
  resolved :: "CommandResult list"

definition runner_init :: runner where
  "runner_init =
     \<lparr>stdout_acc = [], stderr_acc = [], finished = False, timer_pending = True, kills = 0,
      resolved = []\<rparr>"

text \<open>The callback given to \<open>setTimeout\<close>.\<close>

definition on_timeout :: "runner \<Rightarrow> runner" where
  "on_timeout s =
     (if \<not> finished s then
        s\<lparr>finished := True, kills := kills s + 1,
          resolved := resolved s @
            [\<lparr>code = None, stdout = stdout_acc s, stderr = stderr_acc s @ 10 # js ''[Timed out]'',
              timedOut = True\<rparr>]\<rparr>
      else s)"

definition on_error :: "jsstring \<Rightarrow> runner \<Rightarrow> runner" where
  "on_error err s =
     (if \<not> finished s then
        s\<lparr>finished := True, timer_pending := False,
          resolved := resolved s @
            [\<lparr>code = None, stdout = stdout_acc s, stderr = err, timedOut = False\<rparr>]\<rparr>
      else s)"

definition on_close :: "int option \<Rightarrow> runner \<Rightarrow> runner" where
  "on_close c s =
     (if \<not> finished s then
        s\<lparr>finished := True, timer_pending := False,
          resolved := resolved s @
            [\<lparr>code = c, stdout = stdout_acc s, stderr = stderr_acc s, timedOut = False\<rparr>]\<rparr>
      else s)"

text \<open>
  One event. A timer fires at most once, and not after \<open>clearTimeout\<close>: the callback
  runs only while the timer is pending.
\<close>

fun deliver :: "runner \<Rightarrow> event \<Rightarrow> runner" where
  "deliver s TimerFires =
     (if timer_pending s then on_timeout (s\<lparr>timer_pending := False\<rparr>) else s)"
| "deliver s (StdoutData d) = s\<lparr>stdout_acc := stdout_acc s @ d\<rparr>"
| "deliver s (StderrData d) = s\<lparr>stderr_acc := stderr_acc s @ d\<rparr>"
| "deliver s (ErrorEvent err) = on_error err s"
| "deliver s (CloseEvent c) = on_close c s"

definition run_events :: "event list \<Rightarrow> runner" where
  "run_events evs = foldl deliver runner_init evs"

text \<open>
  What the promise of \<open>runCommand\<close> holds after the events: the argument of the first
  call of \<open>resolve\<close>, or nothing yet (\<open>None\<close>: the promise is pending).
\<close>

definition runCommand :: "event list \<Rightarrow> CommandResult option" where
  "runCommand evs = (case resolved (run_events evs) of [] \<Rightarrow> None | r # _ \<Rightarrow> Some r)"

text \<open>
  The invariant of the runner: until it has finished the timer is pending and nothing is
  resolved; once finished the timer is not pending and one result is resolved.
\<close>

definition runner_inv :: "runner \<Rightarrow> bool" where
  "runner_inv s \<longleftrightarrow>
     (if finished s then \<not> timer_pending s \<and> length (resolved s) = 1
      else timer_pending s \<and> resolved s = [])"

fun is_completion :: "event \<Rightarrow> bool" where
  "is_completion TimerFires = True"
| "is_completion (ErrorEvent _) = True"
| "is_completion (CloseEvent _) = True"
| "is_completion _ = False"

section \<open>Ping output parser\<close>

record pingstats =
  transmitted :: jsval
  received :: jsval
  loss :: jsval
  min_ms :: jsval
  avg_ms :: jsval
  max_ms :: jsval
  raw :: jsval

datatype jserror = TypeError

text \<open>\<open>output.split(/\r?\n/)\<close>: the separators are found from left to right.\<close>

fun split_acc :: "jsstring \<Rightarrow> jsstring \<Rightarrow> jsstring list" where
  "split_acc cur [] = [rev cur]"
| "split_acc cur (c # cs) =
     (if c = 10 then rev cur # split_acc [] cs
      else
        (case cs of
           [] \<Rightarrow> split_acc (c # cur) cs
         | d # ds \<Rightarrow>
             if c = 13 \<and> d = 10 then rev cur # split_acc [] ds
             else split_acc (c # cur) cs))"

definition split_lines :: "jsstring \<Rightarrow> jsstring list" where
  "split_lines s = split_acc [] s"

text \<open>
  \<open>Number(m[i])\<close> for a match \<open>m\<close>: a group that took no part in the match is
  \<open>undefined\<close>, and \<open>Number(undefined)\<close> is NaN.
\<close>

definition NumberOfGroup :: "caps \<Rightarrow> nat \<Rightarrow> jsnumber" where
  "NumberOfGroup m i = (case map_of m i of None \<Rightarrow> NaN | Some g \<Rightarrow> StringToNumber g)"

definition isDigitOrDot :: "jschar \<Rightarrow> bool" where
  "isDigitOrDot c \<longleftrightarrow> isDigit c \<or> c = 46"

text \<open>The regular expressions of \<open>parsePingResult\<close>, in the order of the source.\<close>

definition re_packets_transmitted :: rx where
  "re_packets_transmitted = lit ''packets transmitted''"

definition re_received :: rx where
  "re_received = lit ''received''"

definition re_unix_stats :: rx where
  "re_unix_stats =
     seq [Grp 1 (Plus isDigit), Plus isSpace, lit ''packets transmitted,'', Plus isSpace,
          Grp 2 (Plus isDigit), Plus isSpace, lit ''received'', LazyStar isDot,
          Grp 3 (Plus isDigit), lit ''%'', Plus isSpace, lit ''packet loss'']"

definition re_rtt_line :: rx where
  "re_rtt_line =
     seq [Grp 1 (Alt (lit ''rtt'') (lit ''round-trip'')), LazyStar isDot, lit ''min/avg/max'']"

definition re_rtt_values :: rx where
  "re_rtt_values =
     seq [lit ''='', Star isSpace, Grp 1 (Plus isDigitOrDot), lit ''/'',
          Grp 2 (Plus isDigitOrDot), lit ''/'', Grp 3 (Plus isDigitOrDot)]"

definition re_win_stat_line :: rx where
  "re_win_stat_line = lit ''Packets: Sent =''"

definition re_sent :: rx where
  "re_sent = seq [lit ''Sent'', Star isSpace, lit ''='', Star isSpace, Grp 1 (Plus isDigit)]"

definition re_rec :: rx where
  "re_rec = seq [lit ''Received'', Star isSpace, lit ''='', Star isSpace, Grp 1 (Plus isDigit)]"

definition re_lost :: rx where
  "re_lost = seq [lit ''Lost'', Star isSpace, lit ''='', Star isSpace, Grp 1 (Plus isDigit)]"

definition re_win_time_line :: rx where
  "re_win_time_line = Alt (lit ''Minimum ='') (Alt (lit ''Average ='') (lit ''Maximum =''))"

definition re_minimum :: rx where
  "re_minimum =
     seq [lit ''Minimum'', Star isSpace, lit ''='', Star isSpace, Grp 1 (Plus isDigit),
          Star isSpace, lit ''ms'']"

definition re_average :: rx where
  "re_average =
     seq [lit ''Average'', Star isSpace, lit ''='', Star isSpace, Grp 1 (Plus isDigit),
          Star isSpace, lit ''ms'']"

definition re_maximum :: rx where
  "re_maximum =
     seq [lit ''Maximum'', Star isSpace, lit ''='', Star isSpace, Grp 1 (Plus isDigit),
          Star isSpace, lit ''ms'']"

text \<open>
  \<open>lines.find(p)\<close> is the first line that satisfies \<open>p\<close>, or \<open>undefined\<close>;
  \<open>if (line)\<close> then asks for a line that is not the empty string.
\<close>

definition truthy :: "jsstring option \<Rightarrow> jsstring option" where
  "truthy l = (case l of None \<Rightarrow> None | Some x \<Rightarrow> if x = [] then None else Some x)"

definition parse_unix_stats :: "jsstring list \<Rightarrow> pingstats \<Rightarrow> pingstats" where
  "parse_unix_stats lines result =
     (case truthy (find (\<lambda>l. rx_test True re_packets_transmitted l \<and> rx_test True re_received l)
                   lines) of
        None \<Rightarrow> result
      | Some unixStats \<Rightarrow>
          (case rx_exec True re_unix_stats unixStats of
             None \<Rightarrow> result
           | Some m \<Rightarrow>
               result\<lparr>transmitted := JNum (NumberOfGroup m 1),
                       received := JNum (NumberOfGroup m 2),
                       loss := JNum (NumberOfGroup m 3)\<rparr>))"

definition parse_unix_rtt :: "jsstring list \<Rightarrow> pingstats \<Rightarrow> pingstats" where
  "parse_unix_rtt lines result =
     (case truthy (find (rx_test True re_rtt_line) lines) of
        None \<Rightarrow> result
      | Some rttLine \<Rightarrow>
          (case rx_exec False re_rtt_values rttLine of
             None \<Rightarrow> result
           | Some m \<Rightarrow>
               result\<lparr>min_ms := JNum (NumberOfGroup m 1),
                       avg_ms := JNum (NumberOfGroup m 2),
                       max_ms := JNum (NumberOfGroup m 3)\<rparr>))"

text \<open>
  The Windows summary. \<open>result.transmitted != null\<close> holds for every value but
  \<open>null\<close> and \<open>undefined\<close>; the field holds \<open>null\<close> or a Number at that point (see
  \<open>parse_unix_stats\<close>), and the division is the division of Numbers.
\<close>

definition set_loss :: "caps option \<Rightarrow> pingstats \<Rightarrow> pingstats" where
  "set_loss lostMatch result =
     (case lostMatch of
        None \<Rightarrow> result
      | Some m \<Rightarrow>
          (case transmitted result of
             JNum t \<Rightarrow>
               result\<lparr>loss := JNum (MathRound (fmul (fdiv (NumberOfGroup m 1) t) (Fin 100)))\<rparr>
           | _ \<Rightarrow> result))"

definition parse_win_stats :: "jsstring list \<Rightarrow> pingstats \<Rightarrow> pingstats" where
  "parse_win_stats lines result =
     (case truthy (find (rx_test True re_win_stat_line) lines) of
        None \<Rightarrow> result
      | Some winStatLine \<Rightarrow>
          (let sentMatch = rx_exec True re_sent winStatLine;
               recMatch = rx_exec True re_rec winStatLine;
               lostMatch = rx_exec True re_lost winStatLine;
               r1 = (case sentMatch of None \<Rightarrow> result
                     | Some m \<Rightarrow> result\<lparr>transmitted := JNum (NumberOfGroup m 1)\<rparr>);
               r2 = (case recMatch of None \<Rightarrow> r1
                     | Some m \<Rightarrow> r1\<lparr>received := JNum (NumberOfGroup m 1)\<rparr>)
           in set_loss lostMatch r2))"

definition parse_win_time :: "jsstring list \<Rightarrow> pingstats \<Rightarrow> pingstats" where
  "parse_win_time lines result =
     (case truthy (find (rx_test True re_win_time_line) lines) of
        None \<Rightarrow> result
      | Some winTimeLine \<Rightarrow>
          (let minMatch = rx_exec True re_minimum winTimeLine;
               avgMatch = rx_exec True re_average winTimeLine;
               maxMatch = rx_exec True re_maximum winTimeLine;
               r1 = (case minMatch of None \<Rightarrow> result
                     | Some m \<Rightarrow> result\<lparr>min_ms := JNum (NumberOfGroup m 1)\<rparr>);
               r2 = (case avgMatch of None \<Rightarrow> r1
                     | Some m \<Rightarrow> r1\<lparr>avg_ms := JNum (NumberOfGroup m 1)\<rparr>)
           in (case maxMatch of None \<Rightarrow> r2
               | Some m \<Rightarrow> r2\<lparr>max_ms := JNum (NumberOfGroup m 1)\<rparr>)))"

text \<open>
  \<open>parsePingResult\<close>. \<open>output.split\<close> is a method of strings only: for any other
  value of the model the call throws a TypeError.
\<close>

definition parse_lines :: "jsstring \<Rightarrow> pingstats" where
  "parse_lines output =
     (let result = \<lparr>transmitted = JNull, received = JNull, loss = JNull, min_ms = JNull,
                     avg_ms = JNull, max_ms = JNull, raw = JStr output\<rparr>;
          lines = split_lines output
      in parse_win_time lines (parse_win_stats lines (parse_unix_rtt lines
           (parse_unix_stats lines result))))"

fun parsePingResult :: "jsval \<Rightarrow> jserror + pingstats" where
  "parsePingResult (JStr output) = Inr (parse_lines output)"
| "parsePingResult _ = Inl TypeError"

text \<open>
  What a statistic can hold. A Number that is not negative: a rational that is not
  negative, or Infinity. A packet count is \<open>null\<close> or the Number of a run of digits: a
  natural number, or Infinity when the run is beyond the range of doubles. A time is
  \<open>null\<close> or the Number of a run of digits and dots: a Number that is not negative,
  or NaN when the run is not a decimal literal.
\<close>

definition nonneg_num :: "jsnumber \<Rightarrow> bool" where
  "nonneg_num x \<longleftrightarrow> x = PosInf \<or> (\<exists>q. 0 \<le> q \<and> x = Fin q)"

definition nat_or_inf :: "jsnumber \<Rightarrow> bool" where
  "nat_or_inf x \<longleftrightarrow> x = PosInf \<or> (\<exists>k::nat. x = Fin (of_nat k))"

definition count_value :: "jsval \<Rightarrow> bool" where
  "count_value v \<longleftrightarrow> v = JNull \<or> (\<exists>x. v = JNum x \<and> nat_or_inf x)"

definition time_value :: "jsval \<Rightarrow> bool" where
  "time_value v \<longleftrightarrow> v = JNull \<or> v = JNum NaN \<or> (\<exists>x. v = JNum x \<and> nonneg_num x)"

text \<open>
  The invariants of the parsing steps: before the Windows summary is read the loss is
  a packet count (the printed percentage of the Unix summary); after it the loss may
  also be the result of a division.
\<close>

definition typed_fields :: "pingstats \<Rightarrow> bool" where
  "typed_fields r \<longleftrightarrow>
     count_value (transmitted r) \<and> count_value (received r) \<and>
     time_value (min_ms r) \<and> time_value (avg_ms r) \<and> time_value (max_ms r)"

definition typed_unix :: "pingstats \<Rightarrow> bool" where
  "typed_unix r \<longleftrightarrow> typed_fields r \<and> count_value (loss r)"

definition typed_win :: "pingstats \<Rightarrow> bool" where
  "typed_win r \<longleftrightarrow>
     typed_fields r \<and> (loss r = JNum NaN \<or> count_value (loss r)) \<and>
     (transmitted r = JNum (Fin 0) \<or> transmitted r = JNum PosInf \<or> count_value (loss r))"

text \<open>
  The type \<open>integer|null\<close> that the specification gives to \<open>transmitted\<close>,
  \<open>received\<close> and \<open>lossPercent\<close>, in the specification's words.
\<close>

definition integer_or_null :: "jsval \<Rightarrow> bool" where
  "integer_or_null v \<longleftrightarrow> v = JNull \<or> (\<exists>k::int. v = JNum (Fin (of_int k)))"

text \<open>
  The formula \<open>round(lost / transmitted * 100)\<close> of the specification on two integers,
  in exact arithmetic, a tie rounded upwards.
\<close>

definition round_percent :: "nat \<Rightarrow> nat \<Rightarrow> int" where
  "round_percent lost sent = \<lfloor>rat_of_nat lost / rat_of_nat sent * 100 + 1 / 2\<rfloor>"

text \<open>
  The two blocks of the specification's examples, and a run of 309 digits, the decimal
  numeral of 2 * 10^308, which is more than the largest double.
\<close>

definition big_count :: jsstring where
  "big_count = js ''200000000000000000000000000000000000000000000000000000000000000000000000000000000000000000000000000000000000000000000000000000000000000000000000000000000000000000000000000000000000000000000000000000000000000000000000000000000000000000000000000000000000000000000000000000000000000000000000000000000000000000000''"


definition unix_block :: jsstring where
  "unix_block = js ''4 packets transmitted, 4 received, 0% packet loss'' @ 10 #
                js ''rtt min/avg/max/mdev = 1.000/2.000/3.000/0.500 ms''"

definition win_block :: jsstring where
  "win_block = js ''Packets: Sent = 4, Received = 4, Lost = 0 (0% loss)'' @ 10 #
               js ''Minimum = 1ms, Maximum = 3ms, Average = 2ms''"

section \<open>Requests and responses\<close>

text \<open>
  A query parameter as the query parser of Express hands it over: a string, an array
  or an object of such; an absent parameter is \<open>undefined\<close>. The body of a request is
  \<open>undefined\<close> or an empty object when the raw body parser did not take it (another
  content type, no body), and a buffer of bytes when it did.
\<close>

datatype qval = QStr jsstring | QArr "qval list" | QObj "(jsstring \<times> qval) list"

datatype reqbody = BodyUndefined | BodyEmptyObject | BodyBuffer "nat list"

record request =
  query_host :: "qval option"
  query_size :: "qval option"
  body :: reqbody



datatype resp_body =
    ErrorBody jsstring
  | PingBody bool "int option" bool pingstats
  | TraceBody bool "int option" bool jsstring
  | UploadBody nat

record response =
  status :: nat
  json :: resp_body


section \<open>Diagnostic endpoints\<close>





section \<open>Throughput endpoints\<close>

definition MAX_SIZE :: jsnumber where
  "MAX_SIZE = Fin 52428800"

definition DEFAULT_SIZE :: jsnumber where
  "DEFAULT_SIZE = Fin 26214400"

definition CHUNK :: nat where
  "CHUNK = 65536"

text \<open>
  \<open>Number(req.query.size || 25 * 1024 * 1024)\<close>: the empty string and \<open>undefined\<close> are
  falsy, arrays and objects are not. \<open>Number\<close> of an array or object goes through its
  string: the elements of an array joined by commas, \<open>[object Object]\<close> for an object.
  The query parser of Express (\<open>qs\<close> with \<open>allowPrototypes\<close>) builds an object with a
  key \<open>toString\<close> from \<open>size[toString]=1\<close>; its value is a string, an array or an
  object, never a function, so the conversion to a primitive finds no callable
  \<open>toString\<close>, gets the object itself from \<open>valueOf\<close> (or no callable \<open>valueOf\<close>
  either) and throws a TypeError. The same happens when such an object is an element of
  an array that is joined.
\<close>

fun join_comma :: "jsstring list \<Rightarrow> jsstring" where
  "join_comma [] = []"
| "join_comma [x] = x"
| "join_comma (x # xs) = x @ 44 # join_comma xs"

primrec toString_throws :: "qval \<Rightarrow> bool" where
  "toString_throws (QStr s) = False"
| "toString_throws (QArr xs) = list_ex (\<lambda>t. t) (map toString_throws xs)"
| "toString_throws (QObj kvs) = (js ''toString'' \<in> set (map fst kvs))"

primrec qToString :: "qval \<Rightarrow> jsstring" where
  "qToString (QStr s) = s"
| "qToString (QArr xs) = join_comma (map qToString xs)"
| "qToString (QObj kvs) = js ''[object Object]''"

definition sizeParam :: "request \<Rightarrow> jserror + jsnumber" where
  "sizeParam req =
     (case query_size req of
        None \<Rightarrow> Inr DEFAULT_SIZE
      | Some v \<Rightarrow>
          if v = QStr [] then Inr DEFAULT_SIZE
          else if toString_throws v then Inl TypeError
          else Inr (StringToNumber (qToString v)))"

text \<open>\<open>Math.max(1024, Math.min(sizeParam, MAX_SIZE))\<close>.\<close>

definition clamp_size :: "jsnumber \<Rightarrow> jsnumber" where
  "clamp_size sp = MathMax (Fin 1024) (MathMin sp MAX_SIZE)"

text \<open>
  The pattern buffer: \<open>chunk[i] = (i * 97 + 31) & 0xff\<close> for every index below
  \<open>CHUNK\<close>. A byte is a natural number below 256.
\<close>

definition init_chunk :: "nat list" where
  "init_chunk = map (\<lambda>i. (i * 97 + 31) mod 256) [0 ..< CHUNK]"

text \<open>
  \<open>buf.subarray(0, n)\<close>: \<open>n\<close> is cut to an integer towards zero (NaN is 0), a
  negative one counts from the end, and the result stays inside the buffer.
\<close>

definition subarray0 :: "nat list \<Rightarrow> jsnumber \<Rightarrow> nat list" where
  "subarray0 buf n =
     (case n of
        NaN \<Rightarrow> []
      | PosInf \<Rightarrow> buf
      | NegInf \<Rightarrow> []
      | Fin q \<Rightarrow>
          if 0 \<le> q then take (nat \<lfloor>q\<rfloor>) buf
          else if - 1 < q then []
          else take (nat (int (length buf) + \<lceil>q\<rceil>)) buf)"

text \<open>
  The state of one download: \<open>remaining\<close> and \<open>chunk\<close> are the variables of the
  handler, \<open>written\<close> the buffers given to \<open>res.write\<close> so far (their bytes at the
  time of the call), \<open>ended\<close> whether \<open>res.end()\<close> was called, \<open>waiting\<close> whether
  \<open>writeMore\<close> is registered for the next \<open>drain\<close> event.
\<close>

record download =
  remaining :: jsnumber
  chunk :: "nat list"
  written :: "nat list list"
  ended :: bool
  waiting :: bool

text \<open>One turn of the loop body up to and including \<open>remaining -= toWrite\<close>.\<close>

definition write_chunk :: "download \<Rightarrow> download" where
  "write_chunk s =
     (let toWrite = MathMin (Fin (of_nat CHUNK)) (remaining s);
          chunk' = (case chunk s of [] \<Rightarrow> [] | b # bs \<Rightarrow> ((b + 1) mod 256) # bs)
      in s\<lparr>chunk := chunk', written := written s @ [subarray0 chunk' toWrite],
           remaining := fsub (remaining s) toWrite\<rparr>)"

text \<open>
  \<open>writeMore\<close>: \<open>canContinue k\<close> is what the \<open>k\<close>-th call of \<open>res.write\<close> returns
  (the transport decides). The loop need not end for every state (a \<open>remaining\<close> so
  large that subtracting 65536 rounds back to it), so not returning is the value
  \<open>None\<close>.
\<close>

partial_function (option) writeMore :: "(nat \<Rightarrow> bool) \<Rightarrow> download \<Rightarrow> download option" where
  "writeMore canContinue s =
     (if fless (Fin 0) (remaining s) then
        (if canContinue (length (written s)) then writeMore canContinue (write_chunk s)
         else Some ((write_chunk s)\<lparr>waiting := True\<rparr>))
      else Some (s\<lparr>ended := True\<rparr>))"

declare writeMore.simps [code]

text \<open>
  A \<open>drain\<close> event of the response: the listener that \<open>res.once('drain', writeMore)\<close>
  registered, if there is one, is removed and called. Whether and when the transport
  emits \<open>drain\<close> is not decided by the handler: \<open>after_drains\<close> is the state after a
  given number of such events.
\<close>

definition on_drain :: "(nat \<Rightarrow> bool) \<Rightarrow> download \<Rightarrow> download option" where
  "on_drain canContinue s =
     (if waiting s then writeMore canContinue (s\<lparr>waiting := False\<rparr>) else Some s)"

fun after_drains :: "(nat \<Rightarrow> bool) \<Rightarrow> nat \<Rightarrow> download \<Rightarrow> download option" where
  "after_drains canContinue 0 s = Some s"
| "after_drains canContinue (Suc n) s =
     (case on_drain canContinue s of
        None \<Rightarrow> None
      | Some s' \<Rightarrow> after_drains canContinue n s')"

text \<open>
  The header \<open>Content-Length\<close> is \<open>String(size)\<close>; the model keeps the Number itself.
\<close>

record download_response =
  content_type :: string
  content_length :: jsnumber
  cache_control :: string
  chunks :: "nat list list"
  stream_ended :: bool

text \<open>
  The download handler, given what the transport does: the results of \<open>res.write\<close> and
  the number of \<open>drain\<close> events it emits. The value is the response as it stands after
  the call of the handler and these events: the headers, the chunks written so far and
  whether \<open>res.end()\<close> was called. When \<open>Number\<close> throws, the handler is left before
  any header is set (\<open>Inl\<close>); \<open>None\<close> is a call of \<open>writeMore\<close> that does not return.
\<close>

definition download_handler ::
  "(nat \<Rightarrow> bool) \<Rightarrow> nat \<Rightarrow> request \<Rightarrow> (jserror + download_response) option" where
  "download_handler canContinue drains req =
     (case sizeParam req of
        Inl e \<Rightarrow> Some (Inl e)
      | Inr sp \<Rightarrow>
          (let sz = clamp_size sp;
               s0 = \<lparr>remaining = sz, chunk = init_chunk, written = [], ended = False,
                     waiting = False\<rparr>
           in (case writeMore canContinue s0 of
                 None \<Rightarrow> None
               | Some s1 \<Rightarrow>
                   map_option
                     (\<lambda>s. Inr \<lparr>content_type = ''application/octet-stream'', content_length = sz,
                                cache_control = ''no-store'', chunks = written s,
                                stream_ended = ended s\<rparr>)
                     (after_drains canContinue drains s1))))"

text \<open>
  The chunks that a download writes from a buffer \<open>b # bs\<close> with \<open>q\<close> bytes
  remaining, in closed form (\<open>writeMore_run\<close> and \<open>after_drains_run\<close> prove that the
  handler writes these, in this order), and the chunks of a download of a given size.
\<close>

function stream_chunks :: "nat \<Rightarrow> nat list \<Rightarrow> rat \<Rightarrow> nat list list" where
  "stream_chunks b bs q =
     (if 0 < q then
        take (nat \<lfloor>min 65536 q\<rfloor>) (((b + 1) mod 256) # bs) #
          stream_chunks ((b + 1) mod 256) bs (q - 65536)
      else [])"
  by pat_completeness auto
termination
proof (relation "measure (\<lambda>(b, bs, q). nat \<lceil>q\<rceil>)")
  show "wf (measure (\<lambda>(b, bs, q). nat \<lceil>q\<rceil>))" by simp
next
  fix b :: nat and bs :: "nat list" and q :: rat
  assume "0 < q"
  then have "0 < \<lceil>q\<rceil>" by simp
  moreover have "\<lceil>q - 65536\<rceil> = \<lceil>q\<rceil> - 65536"
    using ceiling_diff_of_int [of q 65536] by simp
  ultimately show "(((b + 1) mod 256, bs, q - 65536), (b, bs, q)) \<in> measure (\<lambda>(b, bs, q). nat \<lceil>q\<rceil>)"
    by simp
qed

definition download_chunks :: "jsnumber \<Rightarrow> nat list list" where
  "download_chunks sz =
     (case sz of Fin q \<Rightarrow> stream_chunks (hd init_chunk) (tl init_chunk) q | _ \<Rightarrow> [])"

text \<open>
  Two predicates for the proofs. \<open>dl_inv T s\<close>: what the state \<open>s\<close> has written,
  followed by what is still to come from its buffer and its remaining size, is \<open>T\<close>.
  \<open>dl_mid T s\<close>: \<open>s\<close> is a state between two events of a download of the chunks
  \<open>T\<close>, either ended with all of \<open>T\<close> written or waiting for a \<open>drain\<close> event.
\<close>

definition dl_inv :: "nat list list \<Rightarrow> download \<Rightarrow> bool" where
  "dl_inv T s \<longleftrightarrow>
     (\<exists>q b bs. remaining s = Fin q \<and> representable q \<and> q \<le> 2 ^ 26 \<and> chunk s = b # bs \<and>
        written s @ stream_chunks b bs q = T)"

definition dl_mid :: "nat list list \<Rightarrow> download \<Rightarrow> bool" where
  "dl_mid T s \<longleftrightarrow>
     (ended s \<and> \<not> waiting s \<and> written s = T) \<or> (waiting s \<and> \<not> ended s \<and> dl_inv T s)"

text \<open>
  The upload handler: \<open>req.body?.length || 0\<close> is the length of a buffer and 0 for
  \<open>undefined\<close> and for an object without a \<open>length\<close>.
\<close>

definition MAX_BYTES :: nat where
  "MAX_BYTES = 200 * 1024 * 1024"

definition body_length :: "reqbody \<Rightarrow> nat" where
  "body_length b = (case b of BodyBuffer bs \<Rightarrow> length bs | _ \<Rightarrow> 0)"

definition upload_handler :: "request \<Rightarrow> response" where
  "upload_handler req =
     (let bytes = body_length (body req) in
      if bytes > MAX_BYTES then \<lparr>status = 413, json = ErrorBody (js ''Payload too large'')\<rparr>
      else \<lparr>status = 200, json = UploadBody bytes\<rparr>)"

section \<open>Properties of the host validator\<close>

lemma hostChar_not_space: "hostChar c \<Longrightarrow> \<not> isSpace c"
  by (auto simp: hostChar_def isSpace_def isWhiteSpace_def isLineTerminator_def)

lemma takeWhile_full: "length (takeWhile p xs) = length xs \<longleftrightarrow> list_all p xs"
  by (induction xs) auto

lemma concat_map_nonempty: "concat (map f ks) \<noteq> [] \<longleftrightarrow> (\<exists>k\<in>set ks. f k \<noteq> [])"
  by (induction ks) auto

lemma rmatch_host:
  "rmatch ic inp hostRe (c, r) \<noteq> [] \<longleftrightarrow> length r = length inp \<and> r \<noteq> [] \<and> list_all hostChar r"
proof -
  let ?n = "length (takeWhile hostChar r)"
  have n: "?n \<le> length r" by (rule length_takeWhile_le)
  have "rmatch ic inp (Cat (Plus hostChar) Eol) (c, r) \<noteq> [] \<longleftrightarrow>
        (\<exists>k\<in>set (rev [1 ..< Suc ?n]). rmatch ic inp Eol (c, drop k r) \<noteq> [])"
    by (simp only: rmatch.simps map_map comp_def concat_map_nonempty)
  also have "\<dots> \<longleftrightarrow> (\<exists>k. 1 \<le> k \<and> k \<le> ?n \<and> length r \<le> k)"
  proof -
    have "rmatch ic inp Eol (c, drop k r) \<noteq> [] \<longleftrightarrow> length r \<le> k" for k
      by simp
    moreover have "k \<in> set (rev [1 ..< Suc ?n]) \<longleftrightarrow> 1 \<le> k \<and> k \<le> ?n" for k
      by auto
    ultimately show ?thesis by (simp only: Bex_def conj_assoc)
  qed
  also have "\<dots> \<longleftrightarrow> r \<noteq> [] \<and> ?n = length r"
    using n by (cases r) auto
  finally have A: "rmatch ic inp (Cat (Plus hostChar) Eol) (c, r) \<noteq> [] \<longleftrightarrow>
      r \<noteq> [] \<and> list_all hostChar r"
    by (simp add: takeWhile_full)
  have B: "rmatch ic inp hostRe (c, r) =
     (if length r = length inp then rmatch ic inp (Cat (Plus hostChar) Eol) (c, r) else [])"
    by (simp add: hostRe_def)
  show ?thesis
  proof (cases "length r = length inp")
    case True
    with B have "rmatch ic inp hostRe (c, r) = rmatch ic inp (Cat (Plus hostChar) Eol) (c, r)"
      by (simp only: if_True simp_thms)
    with A True show ?thesis by (simp only: simp_thms)
  next
    case False
    with B have "rmatch ic inp hostRe (c, r) = []"
      by (simp only: if_False simp_thms)
    with False show ?thesis by (simp only: simp_thms)
  qed
qed

lemma exec_at_None:
  "exec_at ic inp re r = None \<longleftrightarrow> (\<forall>k \<le> length r. rmatch ic inp re ([], drop k r) = [])"
proof (induction r)
  case Nil
  then show ?case by (simp split: list.splits)
next
  case (Cons x xs)
  have "(\<forall>k \<le> length (x # xs). rmatch ic inp re ([], drop k (x # xs)) = []) \<longleftrightarrow>
        rmatch ic inp re ([], x # xs) = [] \<and>
        (\<forall>k \<le> length xs. rmatch ic inp re ([], drop k xs) = [])"
  proof -
    have "(\<forall>k \<le> Suc (length xs). rmatch ic inp re ([], drop k (x # xs)) = []) \<longleftrightarrow>
       rmatch ic inp re ([], drop 0 (x # xs)) = [] \<and>
       (\<forall>k \<le> length xs. rmatch ic inp re ([], drop (Suc k) (x # xs)) = [])"
      by (metis Suc_le_mono le0 not0_implies_Suc)
    then show ?thesis by simp
  qed
  with Cons show ?case by (simp split: list.splits)
qed

lemma test_hostRe: "rx_test False hostRe h \<longleftrightarrow> h \<noteq> [] \<and> list_all hostChar h"
proof -
  have *: "rx_test False hostRe h \<longleftrightarrow>
      (\<exists>k \<le> length h. rmatch False h hostRe ([], drop k h) \<noteq> [])"
    by (simp add: rx_test_def rx_exec_def exec_at_None)
  show ?thesis
  proof
    assume "rx_test False hostRe h"
    then obtain k where k: "k \<le> length h" "rmatch False h hostRe ([], drop k h) \<noteq> []"
      using * by blast
    from k(2) have l: "length (drop k h) = length h"
      and r: "drop k h \<noteq> []" "list_all hostChar (drop k h)"
      unfolding rmatch_host by blast+
    from l k(1) r(1) have "k = 0" by (cases h) auto
    with r show "h \<noteq> [] \<and> list_all hostChar h" by simp
  next
    assume "h \<noteq> [] \<and> list_all hostChar h"
    then have "rmatch False h hostRe ([], drop 0 h) \<noteq> []"
      unfolding rmatch_host by simp
    then show "rx_test False hostRe h" using * by blast
  qed
qed

lemma trim_hostChars: "list_all hostChar h \<Longrightarrow> trim h = h"
proof (cases h rule: rev_cases)
  case Nil
  then show ?thesis by (simp add: trim_def)
next
  case (snoc ys y)
  assume a: "list_all hostChar h"
  then have 1: "dropWhile isSpace h = h" by (cases h) (auto simp: hostChar_not_space)
  from a snoc have "\<not> isSpace y" by (simp add: hostChar_not_space)
  then have "dropWhile isSpace (rev h) = rev h" using snoc by simp
  with 1 show ?thesis by (simp add: trim_def)
qed

lemma validateHost_char:
  "validateHost (JStr s) =
     (let h = trim s in
      if h \<noteq> [] \<and> length h \<le> 255 \<and> list_all hostChar h then Some h else None)"
  by (auto simp: test_hostRe Let_def)

lemmas eval_chars =
  js_def trim_def isSpace_def isWhiteSpace_def isLineTerminator_def hostChar_def isDigit_def

text \<open>
  C1 (as the claim states it): every string that contains a character outside
  \<open>[A-Za-z0-9.\-:]\<close> is rejected. This fails: the string of a space and the letter
  \<open>a\<close> contains a space, which is outside the class, and the validator trims it and
  returns the string \<open>a\<close>.
\<close>

theorem validateHost_space_accepted:
  "32 \<in> set (js '' a'') \<and> \<not> hostChar 32 \<and> validateHost (JStr (js '' a'')) = Some (js ''a'')"
  by (simp add: validateHost_char eval_chars del: validateHost.simps)

text \<open>
  C1 (amended): the validator accepts exactly the strings whose trimmed form is
  non-empty, has at most 255 code units and consists of characters of
  \<open>[A-Za-z0-9.\-:]\<close> only, and it returns the trimmed form; it rejects every string
  whose trimmed form contains a character outside the class, and every value that is
  not a string.
\<close>

theorem validateHost_accepts_exactly:
  "validateHost v =
     (case v of
        JStr s \<Rightarrow>
          if trim s \<noteq> [] \<and> length (trim s) \<le> 255 \<and> list_all hostChar (trim s)
          then Some (trim s) else None
      | _ \<Rightarrow> None)"
  by (cases v) (simp_all add: validateHost_char Let_def del: validateHost.simps(1))

text \<open>
  C9: the validator is idempotent on what it accepts: a returned host passes validation
  again and comes back unchanged.
\<close>

theorem validateHost_idempotent:
  "validateHost v = Some h \<Longrightarrow> validateHost (JStr h) = Some h"
proof (cases v)
  case (JStr s)
  assume "validateHost v = Some h"
  with JStr have h: "h = trim s" "h \<noteq> []" "length h \<le> 255" "list_all hostChar h"
    by (auto simp: validateHost_char Let_def simp del: validateHost.simps split: if_splits)
  from h(4) have "trim h = h" by (rule trim_hostChars)
  with h show ?thesis by (simp add: validateHost_char Let_def del: validateHost.simps)
qed simp_all

theorem validateHost_idempotent_witness:
  "validateHost (JStr (js '' example.com '')) = Some (js ''example.com'') \<and>
   validateHost (JStr (js ''example.com'')) = Some (js ''example.com'')"
proof -
  have a: "validateHost (JStr (js '' example.com '')) = Some (js ''example.com'')"
    by (simp add: validateHost_char eval_chars del: validateHost.simps)
  from validateHost_idempotent [OF a] a show ?thesis by simp
qed

section \<open>Properties of the command runner and of the upload handler\<close>

lemma run_events_snoc: "run_events (evs @ [e]) = deliver (run_events evs) e"
  by (simp add: run_events_def)

lemma deliver_inv: "runner_inv s \<Longrightarrow> runner_inv (deliver s e)"
  by (cases e) (auto simp: runner_inv_def on_timeout_def on_error_def on_close_def split: if_splits)

lemma run_events_inv: "runner_inv (run_events evs)"
proof (induction evs rule: rev_induct)
  case Nil
  show ?case by (simp add: run_events_def runner_inv_def runner_init_def)
next
  case (snoc e evs)
  then show ?case by (simp add: run_events_snoc deliver_inv)
qed

lemma deliver_finished:
  "finished s \<Longrightarrow> \<not> timer_pending s \<Longrightarrow>
   finished (deliver s e) \<and> \<not> timer_pending (deliver s e) \<and> resolved (deliver s e) = resolved s
     \<and> kills (deliver s e) = kills s"
  by (cases e) (auto simp: on_timeout_def on_error_def on_close_def)

lemma foldl_deliver_finished:
  "finished s \<Longrightarrow> \<not> timer_pending s \<Longrightarrow>
   finished (foldl deliver s evs) \<and> \<not> timer_pending (foldl deliver s evs) \<and>
   resolved (foldl deliver s evs) = resolved s \<and> kills (foldl deliver s evs) = kills s"
proof (induction evs arbitrary: s)
  case Nil
  then show ?case by simp
next
  case (Cons e evs)
  from deliver_finished [OF Cons.prems, of e] Cons.IH [of "deliver s e"]
  show ?case by simp
qed

lemma deliver_data:
  "\<not> is_completion e \<Longrightarrow>
   deliver s e = s\<lparr>stdout_acc := stdout_acc s @ (case e of StdoutData d \<Rightarrow> d | _ \<Rightarrow> []),
                   stderr_acc := stderr_acc s @ (case e of StderrData d \<Rightarrow> d | _ \<Rightarrow> [])\<rparr>"
  by (cases e) auto

lemma run_events_pending:
  "\<not> list_ex is_completion pre \<Longrightarrow>
   run_events pre = runner_init\<lparr>stdout_acc := concat [d. StdoutData d \<leftarrow> pre],
                                stderr_acc := concat [d. StderrData d \<leftarrow> pre]\<rparr>"
proof (induction pre rule: rev_induct)
  case Nil
  show ?case by (simp add: run_events_def runner_init_def)
next
  case (snoc e pre)
  then have e: "\<not> is_completion e" and p: "\<not> list_ex is_completion pre" by simp_all
  show ?case
    unfolding run_events_snoc snoc.IH [OF p] deliver_data [OF e]
    by (cases e) (use e in \<open>simp_all add: runner_init_def\<close>)
qed

lemma completion_resolves:
  assumes "\<not> list_ex is_completion pre" and "is_completion e"
  shows "finished (deliver (run_events pre) e) \<and> \<not> timer_pending (deliver (run_events pre) e) \<and>
     resolved (deliver (run_events pre) e) =
       [case e of
          TimerFires \<Rightarrow> \<lparr>code = None, stdout = concat [d. StdoutData d \<leftarrow> pre],
                          stderr = concat [d. StderrData d \<leftarrow> pre] @ 10 # js ''[Timed out]'',
                          timedOut = True\<rparr>
        | ErrorEvent err \<Rightarrow> \<lparr>code = None, stdout = concat [d. StdoutData d \<leftarrow> pre],
                          stderr = err, timedOut = False\<rparr>
        | CloseEvent c \<Rightarrow> \<lparr>code = c, stdout = concat [d. StdoutData d \<leftarrow> pre],
                          stderr = concat [d. StderrData d \<leftarrow> pre], timedOut = False\<rparr>]"
  unfolding run_events_pending [OF assms(1)] using assms(2)
  by (cases e) (simp_all add: runner_init_def on_timeout_def on_error_def on_close_def)

lemma run_events_completed:
  assumes "\<not> list_ex is_completion pre" and "is_completion e"
  shows "resolved (run_events (pre @ e # post)) = resolved (deliver (run_events pre) e)"
    and "finished (run_events (pre @ e # post))" and "\<not> timer_pending (run_events (pre @ e # post))"
proof -
  have *: "run_events (pre @ e # post) = foldl deliver (deliver (run_events pre) e) post"
    by (simp add: run_events_def)
  from completion_resolves [OF assms]
  have f: "finished (deliver (run_events pre) e)" "\<not> timer_pending (deliver (run_events pre) e)"
    by simp_all
  from foldl_deliver_finished [OF f, of post] *
  show "resolved (run_events (pre @ e # post)) = resolved (deliver (run_events pre) e)"
    and "finished (run_events (pre @ e # post))" and "\<not> timer_pending (run_events (pre @ e # post))"
    by simp_all
qed

text \<open>
  C2: the command runner resolves exactly once. No sequence of events makes it call
  \<open>resolve\<close> twice; it has not resolved before the first of timeout, spawn error and
  exit; that first event fixes the result \<open>r\<close>, which no later event changes; and
  afterwards the other paths are disarmed: the timer is no longer pending (cleared on
  completion, or already fired) and \<open>finished\<close> makes every later callback a no-op.
\<close>

theorem runCommand_exactly_once:
  assumes "\<not> list_ex is_completion pre" and "is_completion e"
  shows "length (resolved (run_events evs)) \<le> 1 \<and>
         resolved (run_events pre) = [] \<and>
         (\<exists>r. resolved (run_events (pre @ [e])) = [r] \<and>
              resolved (run_events (pre @ e # post)) = [r] \<and>
              runCommand (pre @ e # post) = Some r) \<and>
         finished (run_events (pre @ e # post)) \<and>
         \<not> timer_pending (run_events (pre @ e # post))"
proof -
  have a: "resolved (run_events pre) = []"
    by (simp add: run_events_pending [OF assms(1)] runner_init_def)
  from completion_resolves [OF assms] obtain r where
    r: "resolved (deliver (run_events pre) e) = [r]" by blast
  have b: "resolved (run_events (pre @ [e])) = [r]"
    using r by (simp add: run_events_snoc)
  have c: "resolved (run_events (pre @ e # post)) = [r]"
    using run_events_completed(1) [OF assms] r by simp
  then have d: "runCommand (pre @ e # post) = Some r"
    by (simp add: runCommand_def)
  have z: "length (resolved (run_events evs)) \<le> 1"
    using run_events_inv [of evs] by (simp add: runner_inv_def split: if_splits)
  from z a b c d run_events_completed(2,3) [OF assms] show ?thesis by blast
qed

theorem runCommand_exactly_once_witness:
  "\<not> list_ex is_completion [StdoutData (js ''ok'')] \<and> is_completion (CloseEvent (Some 0)) \<and>
   resolved (run_events ([StdoutData (js ''ok'')] @ CloseEvent (Some 0) # [TimerFires, ErrorEvent (js ''late'')])) =
     [\<lparr>code = Some 0, stdout = js ''ok'', stderr = [], timedOut = False\<rparr>]"
proof -
  have h: "\<not> list_ex is_completion [StdoutData (js ''ok'')]" "is_completion (CloseEvent (Some 0))"
    by simp_all
  from runCommand_exactly_once [OF h, of "[TimerFires, ErrorEvent (js ''late'')]"]
  show ?thesis
    by (simp add: run_events_def runner_init_def on_close_def on_error_def)
qed

text \<open>
  C3: the three outcomes. When the timer fires before the process has finished, the
  result has \<open>timedOut = true\<close>, a null exit code and the stderr text received so far
  followed by a newline and \<open>[Timed out]\<close>; when the error event comes first, a null
  exit code, \<open>timedOut = false\<close> and the error text as stderr; when the close event
  comes first, the exit code of the process and \<open>timedOut = false\<close>. In all three
  stdout is the text received so far.
\<close>

theorem runCommand_outcomes:
  assumes "\<not> list_ex is_completion pre"
  shows "runCommand (pre @ TimerFires # post) =
           Some \<lparr>code = None, stdout = concat [d. StdoutData d \<leftarrow> pre],
                 stderr = concat [d. StderrData d \<leftarrow> pre] @ 10 # js ''[Timed out]'',
                 timedOut = True\<rparr> \<and>
         runCommand (pre @ ErrorEvent err # post) =
           Some \<lparr>code = None, stdout = concat [d. StdoutData d \<leftarrow> pre], stderr = err,
                 timedOut = False\<rparr> \<and>
         runCommand (pre @ CloseEvent c # post) =
           Some \<lparr>code = c, stdout = concat [d. StdoutData d \<leftarrow> pre],
                 stderr = concat [d. StderrData d \<leftarrow> pre], timedOut = False\<rparr>"
proof -
  have "runCommand (pre @ e # post) = Some (hd (resolved (deliver (run_events pre) e)))"
    if "is_completion e" for e
    using run_events_completed(1) [OF assms that, of post] completion_resolves [OF assms that]
    by (simp add: runCommand_def)
  from this [of TimerFires] this [of "ErrorEvent err"] this [of "CloseEvent c"]
    completion_resolves [OF assms, of TimerFires] completion_resolves [OF assms, of "ErrorEvent err"]
    completion_resolves [OF assms, of "CloseEvent c"]
  show ?thesis by simp
qed

theorem runCommand_outcomes_witness:
  "\<not> list_ex is_completion [StderrData (js ''e1''), StdoutData (js ''o''), StderrData (js ''e2'')] \<and>
   runCommand ([StderrData (js ''e1''), StdoutData (js ''o''), StderrData (js ''e2'')] @ TimerFires # [CloseEvent None]) =
     Some \<lparr>code = None, stdout = js ''o'', stderr = js ''e1e2'' @ 10 # js ''[Timed out]'', timedOut = True\<rparr>"
proof -
  have h: "\<not> list_ex is_completion [StderrData (js ''e1''), StdoutData (js ''o''), StderrData (js ''e2'')]"
    by simp
  from runCommand_outcomes [OF h, of "[CloseEvent None]"]
  show ?thesis by (simp add: js_def)
qed

text \<open>
  C10: an upload whose body is \<open>undefined\<close> or was not parsed into a buffer is
  answered 200 with \<open>receivedBytes: 0\<close>, with no error; the handler answers 413
  exactly when the measured length of the body exceeds 200 MiB, and 200 with that length
  otherwise.
\<close>

theorem upload_handler_spec:
  "upload_handler (req\<lparr>body := BodyUndefined\<rparr>) = \<lparr>status = 200, json = UploadBody 0\<rparr> \<and>
   upload_handler (req\<lparr>body := BodyEmptyObject\<rparr>) = \<lparr>status = 200, json = UploadBody 0\<rparr> \<and>
   (status (upload_handler req) = 413) = (200 * 1024 * 1024 < body_length (body req)) \<and>
   upload_handler req =
     (if 200 * 1024 * 1024 < body_length (body req)
      then \<lparr>status = 413, json = ErrorBody (js ''Payload too large'')\<rparr>
      else \<lparr>status = 200, json = UploadBody (body_length (body req))\<rparr>)"
  by (simp add: upload_handler_def body_length_def MAX_BYTES_def Let_def)

section \<open>Properties of the diagnostic endpoints\<close>





section \<open>Rounding to doubles\<close>

lemma ilog2_bounds:
  assumes "0 < q"
  shows "2 powi (ilog2 q) \<le> q \<and> q < 2 powi (ilog2 q + 1)"
proof -
  obtain n d where nd: "quotient_of q = (n, d)" by force
  have d: "0 < d" using quotient_of_denom_pos [OF nd] .
  have q: "q = of_int n / of_int d" using quotient_of_div [OF nd] .
  have n: "0 < n" using assms q d by (simp add: zero_less_divide_iff)
  define a where "a = floorlog 2 (nat n)"
  define b where "b = floorlog 2 (nat d)"
  define e where "e = int a - int b"
  from floorlog_bounds [of "nat n" 2] n have na: "2 ^ (a - 1) \<le> nat n" "nat n < 2 ^ a"
    by (simp_all add: a_def)
  from floorlog_bounds [of "nat d" 2] d have db: "2 ^ (b - 1) \<le> nat d" "nat d < 2 ^ b"
    by (simp_all add: b_def)
  have a1: "1 \<le> a" using na(2) n by (cases a) auto
  have b1: "1 \<le> b" using db(2) d by (cases b) auto
  have qn: "q = of_nat (nat n) / of_nat (nat d)"
    using q n d by simp
  have rn: "(2::rat) ^ (a - 1) \<le> of_nat (nat n)" "of_nat (nat n) < (2::rat) ^ a"
    using na by (metis of_nat_le_iff of_nat_numeral of_nat_power, metis of_nat_less_iff of_nat_numeral of_nat_power)
  have rd: "(2::rat) ^ (b - 1) \<le> of_nat (nat d)" "of_nat (nat d) < (2::rat) ^ b"
    using db by (metis of_nat_le_iff of_nat_numeral of_nat_power, metis of_nat_less_iff of_nat_numeral of_nat_power)
  have dpos: "(0::rat) < of_nat (nat d)" using d by simp
  have "q < 2 ^ a / 2 ^ (b - 1)"
    unfolding qn
    by (rule frac_less [OF _ rn(2) _ rd(1)]) simp_all
  also have "\<dots> = 2 powi (e + 1)"
  proof -
    have "e + 1 = int a - int (b - 1)" using b1 by (simp add: e_def)
    then show ?thesis by (simp add: power_int_diff)
  qed
  finally have up: "q < 2 powi (e + 1)" .
  have "(2::rat) powi (e - 1) = 2 ^ (a - 1) / 2 ^ b"
  proof -
    have "e - 1 = int (a - 1) - int b" using a1 by (simp add: e_def)
    then show ?thesis by (simp add: power_int_diff)
  qed
  also have "\<dots> \<le> q"
    unfolding qn
    by (rule frac_le [OF _ rn(1) dpos order_less_imp_le [OF rd(2)]]) simp
  finally have lo: "2 powi (e - 1) \<le> q" .
  have il: "ilog2 q = (if 2 powi e \<le> q then e else e - 1)"
    by (simp add: ilog2_def nd a_def b_def e_def Let_def)
  show ?thesis
  proof (cases "2 powi e \<le> q")
    case True
    with il up show ?thesis by simp
  next
    case False
    with il lo show ?thesis by simp
  qed
qed

lemma ilog2_unique:
  assumes "2 powi e \<le> q" and "q < 2 powi (e + 1)"
  shows "ilog2 q = e"
proof -
  have q: "0 < q" using assms(1) by (smt (verit) zero_less_power_int zero_less_numeral order_less_le_trans)
  from ilog2_bounds [OF q] have b: "2 powi (ilog2 q) \<le> q" "q < 2 powi (ilog2 q + 1)" by simp_all
  have "(2::rat) powi e < 2 powi (ilog2 q + 1)" using assms(1) b(2) by simp
  then have 1: "e < ilog2 q + 1"
    by (smt (verit) power_int_increasing one_le_numeral not_less)
  have "(2::rat) powi (ilog2 q) < 2 powi (e + 1)" using assms(2) b(1) by simp
  then have 2: "ilog2 q < e + 1"
    by (smt (verit) power_int_increasing one_le_numeral not_less)
  from 1 2 show ?thesis by simp
qed

lemma round_even_of_int: "round_even (of_int m) = m"
  by (simp add: round_even_def Let_def)

lemma rnd_exact: "representable q \<Longrightarrow> rnd q = Fin q"
proof (cases "q = 0")
  case True
  then show ?thesis by (simp add: rnd_def)
next
  case False
  assume "representable q"
  with False obtain m where lt: "\<bar>q\<bar> < 2 powi 1024"
    and m: "\<bar>q\<bar> = of_int m * 2 powi (max (ilog2 \<bar>q\<bar>) (- 1022) - 52)"
    by (auto simp: representable_def)
  define ulp :: rat where "ulp = 2 powi (max (ilog2 \<bar>q\<bar>) (- 1022) - 52)"
  have u: "ulp \<noteq> 0" by (simp add: ulp_def)
  have mu: "\<bar>q\<bar> = of_int m * ulp" using m by (simp add: ulp_def)
  then have "\<bar>q\<bar> / ulp = of_int m" using u by simp
  then have "of_int (round_even (\<bar>q\<bar> / ulp)) * ulp = \<bar>q\<bar>"
    using mu by (simp add: round_even_of_int)
  moreover have "sgn q * \<bar>q\<bar> = q" by (simp add: sgn_mult_abs)
  ultimately show ?thesis
    using False lt by (simp add: rnd_def Let_def ulp_def [symmetric])
qed


lemma powi_less_cancel: "(2::rat) powi a < 2 powi b \<Longrightarrow> a < b"
  by (smt (verit) power_int_increasing one_le_numeral not_less)

lemma ilog2_ge: "0 < q \<Longrightarrow> 2 powi k \<le> q \<Longrightarrow> k \<le> ilog2 q"
proof -
  assume "0 < q" "2 powi k \<le> q"
  with ilog2_bounds [of q] have "(2::rat) powi k < 2 powi (ilog2 q + 1)" by simp
  from powi_less_cancel [OF this] show ?thesis by simp
qed

lemma ilog2_less: "0 < q \<Longrightarrow> q < 2 powi k \<Longrightarrow> ilog2 q < k"
proof -
  assume "0 < q" "q < 2 powi k"
  with ilog2_bounds [of q] have "(2::rat) powi (ilog2 q) < 2 powi k" by simp
  from powi_less_cancel [OF this] show ?thesis .
qed

lemma ilog2_mono: "0 < x \<Longrightarrow> x \<le> y \<Longrightarrow> ilog2 x \<le> ilog2 y"
proof -
  assume x: "0 < x" "x \<le> y"
  with ilog2_bounds [of x] have "2 powi (ilog2 x) \<le> y" by simp
  with x show ?thesis by (intro ilog2_ge) simp_all
qed

lemma representable_mult:
  assumes q: "q = of_int k * 2 powi j" and j: "max (ilog2 \<bar>q\<bar>) (- 1022) - 52 \<le> j"
    and lt: "\<bar>q\<bar> < 2 powi 1024"
  shows "representable q"
proof -
  define ee where "ee = max (ilog2 \<bar>q\<bar>) (- 1022) - 52"
  have "(2::rat) powi j = 2 powi (ee + (j - ee))" by simp
  also have "\<dots> = 2 powi ee * 2 powi (j - ee)" by (subst power_int_add) simp_all
  also have "2 powi (j - ee) = (2::rat) ^ nat (j - ee)"
    using j by (simp add: ee_def power_int_def)
  finally have "\<bar>q\<bar> = \<bar>of_int k\<bar> * (2 ^ nat (j - ee) * 2 powi ee)"
    by (simp add: q abs_mult mult.commute)
  also have "\<dots> = of_int (\<bar>k\<bar> * 2 ^ nat (j - ee)) * 2 powi ee"
    by simp
  finally show ?thesis using lt unfolding representable_def ee_def by blast
qed

lemma representable_int:
  assumes "\<bar>n\<bar> < 2 ^ 53"
  shows "representable (of_int n)"
proof (cases "n = 0")
  case True
  then show ?thesis by (simp add: representable_def)
next
  case False
  have a: "\<bar>rat_of_int n\<bar> < 2 powi 53"
  proof -
    have "rat_of_int \<bar>n\<bar> < rat_of_int (2 ^ 53)" using assms by (simp only: of_int_less_iff)
    then show ?thesis by simp
  qed
  have pos: "0 < \<bar>rat_of_int n\<bar>" using False by simp
  from ilog2_less [OF pos a] have "ilog2 \<bar>rat_of_int n\<bar> < 53" .
  then have j: "max (ilog2 \<bar>rat_of_int n\<bar>) (- 1022) - 52 \<le> 0" by simp
  have "\<bar>rat_of_int n\<bar> < 2 powi 1024"
    using a by (rule less_trans) (simp add: power_int_strict_increasing)
  with representable_mult [of "of_int n" n 0] j show ?thesis by simp
qed

lemma rnd_int: "\<bar>n\<bar> < 2 ^ 53 \<Longrightarrow> rnd (of_int n) = Fin (of_int n)"
  by (intro rnd_exact representable_int)

lemma rnd_nat: "n < 2 ^ 53 \<Longrightarrow> rnd (of_nat n) = Fin (of_nat n)"
  using rnd_int [of "int n"] by simp

lemma representable_sub_chunk:
  assumes r: "representable q" and q: "65536 < q" "q \<le> 2 ^ 26"
  shows "representable (q - 65536)"
proof -
  define e where "e = ilog2 q"
  have pos: "0 < q" using q by simp
  have e16: "16 \<le> e" unfolding e_def using q by (intro ilog2_ge) simp_all
  have e26: "e \<le> 26"
  proof -
    have "q < 2 powi 27" using q by simp
    from ilog2_less [OF pos this] show ?thesis by (simp add: e_def)
  qed
  from r pos obtain m where m: "q = of_int m * 2 powi (e - 52)"
    using e16 by (auto simp: representable_def e_def max_def split: if_splits)
  have "(65536::rat) = 2 powi 16" by simp
  also have "\<dots> = 2 powi ((68 - e) + (e - 52))" by simp
  also have "\<dots> = 2 powi (68 - e) * 2 powi (e - 52)" by (subst power_int_add) simp_all
  also have "2 powi (68 - e) = (2::rat) ^ nat (68 - e)" using e26 by (simp add: power_int_def)
  finally have c: "(65536::rat) = of_int (2 ^ nat (68 - e)) * 2 powi (e - 52)" by simp
  have x: "q - 65536 = of_int (m - 2 ^ nat (68 - e)) * 2 powi (e - 52)"
    by (subst m, subst c) (simp add: algebra_simps)
  have xpos: "0 < q - 65536" using q by simp
  have "ilog2 \<bar>q - 65536\<bar> \<le> e"
    unfolding e_def using xpos by (simp add: ilog2_mono)
  then have j: "max (ilog2 \<bar>q - 65536\<bar>) (- 1022) - 52 \<le> e - 52" using e16 by simp
  have "\<bar>q - 65536\<bar> < 2 ^ 26" using q by simp
  also have "(2::rat) ^ 26 < 2 powi 1024" by (simp add: power_int_strict_increasing)
  finally show ?thesis using representable_mult [OF x j] by simp
qed

lemma round_even_bounds:
  assumes "0 \<le> x" and "x < of_int N"
  shows "0 \<le> round_even x \<and> round_even x \<le> N"
proof -
  have f0: "0 \<le> \<lfloor>x\<rfloor>" using assms(1) by simp
  have f1: "\<lfloor>x\<rfloor> < N" using assms(2) by (simp add: floor_less_iff)
  show ?thesis using f0 f1 by (auto simp: round_even_def Let_def)
qed

lemma rnd_representable:
  assumes "rnd q = Fin q'"
  shows "representable q'"
proof (cases "q = 0")
  case True
  with assms show ?thesis by (simp add: rnd_def representable_def)
next
  case False
  define a where "a = \<bar>q\<bar>"
  define e where "e = max (ilog2 a) (- 1022)"
  define ulp :: rat where "ulp = 2 powi (e - 52)"
  define m where "m = round_even (a / ulp)"
  define sg :: int where "sg = (if q < 0 then - 1 else 1)"
  have apos: "0 < a" using False by (simp add: a_def)
  have upos: "0 < ulp" by (simp add: ulp_def)
  from assms False have lt: "of_int m * ulp < 2 powi 1024" and q': "q' = sgn q * (of_int m * ulp)"
    by (auto simp: rnd_def Let_def a_def e_def ulp_def m_def split: if_splits)
  have sgq: "sgn q = of_int sg" using False by (simp add: sg_def sgn_if)
  have top: "2 powi (e + 1) = 2 ^ 53 * ulp"
  proof -
    have "e + 1 = 53 + (e - 52)" by simp
    then have "(2::rat) powi (e + 1) = 2 powi (53 + (e - 52))" by (simp only:)
    also have "\<dots> = 2 powi 53 * 2 powi (e - 52)" by (subst power_int_add) simp_all
    finally show ?thesis by (simp add: ulp_def)
  qed
  have "a < 2 powi (ilog2 a + 1)" using ilog2_bounds [OF apos] by simp
  also have "\<dots> \<le> 2 powi (e + 1)" by (intro power_int_increasing) (simp_all add: e_def)
  finally have "a < 2 ^ 53 * ulp" using top by simp
  then have "a / ulp < of_int (2 ^ 53)" using upos by (simp add: pos_divide_less_eq)
  moreover have "0 \<le> a / ulp" using apos upos by simp
  ultimately have mb: "0 \<le> m" "m \<le> 2 ^ 53"
    using round_even_bounds [of "a / ulp" "2 ^ 53"] by (simp_all add: m_def)
  have absq': "\<bar>q'\<bar> = of_int m * ulp"
    using mb(1) upos False by (simp add: q' abs_mult)
  show ?thesis
  proof (cases "m = 2 ^ 53")
    case True
    have v: "\<bar>q'\<bar> = 2 powi (e + 1)" using absq' True top by simp
    have il: "ilog2 \<bar>q'\<bar> = e + 1"
      unfolding v by (rule ilog2_unique) (simp_all add: power_int_strict_increasing)
    have "e + 1 = 52 + (e + 1 - 52)" by simp
    then have "(2::rat) powi (e + 1) = 2 powi (52 + (e + 1 - 52))" by (simp only:)
    also have "\<dots> = 2 powi 52 * 2 powi (e + 1 - 52)" by (subst power_int_add) simp_all
    finally have "q' = of_int (sg * 2 ^ 52) * 2 powi (e + 1 - 52)"
      using True top by (simp add: q' sgq)
    moreover have "max (ilog2 \<bar>q'\<bar>) (- 1022) - 52 \<le> e + 1 - 52"
      unfolding il by (simp add: e_def)
    moreover have "\<bar>q'\<bar> < 2 powi 1024" using absq' lt by simp
    ultimately show ?thesis by (rule representable_mult)
  next
    case False
    show ?thesis
    proof (cases "m = 0")
      case True
      then show ?thesis by (simp add: q' representable_def)
    next
      case m0: False
      have vpos: "0 < \<bar>q'\<bar>" using absq' m0 mb(1) upos by simp
      have "of_int m < (2::rat) ^ 53"
      proof -
        have "m < 2 ^ 53" using False mb(2) by simp
        then have "rat_of_int m < rat_of_int (2 ^ 53)" by (simp only: of_int_less_iff)
        then show ?thesis by simp
      qed
      then have "\<bar>q'\<bar> < 2 powi (e + 1)"
        unfolding absq' top using upos by simp
      from ilog2_less [OF vpos this] have "ilog2 \<bar>q'\<bar> \<le> e" by simp
      then have j: "max (ilog2 \<bar>q'\<bar>) (- 1022) - 52 \<le> e - 52" by (simp add: e_def)
      have "q' = of_int (sg * m) * 2 powi (e - 52)" by (simp add: q' sgq ulp_def)
      moreover have "\<bar>q'\<bar> < 2 powi 1024" using absq' lt by simp
      ultimately show ?thesis using j by (intro representable_mult)
    qed
  qed
qed

lemma StringToNumber_small:
  "StringToNumber [48] = Fin 0" "StringToNumber [49] = Fin 1"
  "StringToNumber [50] = Fin 2" "StringToNumber [51] = Fin 3"
  "StringToNumber [52] = Fin 4"
  using rnd_nat [of 1] rnd_nat [of 2] rnd_nat [of 3] rnd_nat [of 4]
  by (simp_all add: StringToNumber_def eval_chars radix_prefix_def parse_decimal_def
      parse_exponent_def radix_val_def digitVal_def rnd_def)

lemmas num_eval = StringToNumber_def eval_chars radix_prefix_def parse_decimal_def
  parse_exponent_def radix_val_def digitVal_def

lemmas rx_eval = rx_exec_def rx_test_def lit_def js_def chr_eq_def canon_def isSpace_def
  isWhiteSpace_def isLineTerminator_def isDigit_def isDot_def isDigitOrDot_def

lemmas re_defs = re_packets_transmitted_def re_received_def re_unix_stats_def re_rtt_line_def
  re_rtt_values_def re_win_stat_line_def re_sent_def re_rec_def re_lost_def
  re_win_time_line_def re_minimum_def re_average_def re_maximum_def

lemma win_lines:
  "split_lines win_block =
     [js ''Packets: Sent = 4, Received = 4, Lost = 0 (0% loss)'',
      js ''Minimum = 1ms, Maximum = 3ms, Average = 2ms'']"
  by (simp add: split_lines_def win_block_def js_def)

lemma rnd_zero: "rnd 0 = Fin 0"
  by (simp add: rnd_def)

lemma floor_half: "\<lfloor>(1::rat) / 2\<rfloor> = 0"
  by (simp add: floor_eq_iff)

lemma win_parse:
  "parse_lines win_block =
   \<lparr>transmitted = JNum (Fin 4), received = JNum (Fin 4), loss = JNum (Fin 0),
    min_ms = JNum (Fin 1), avg_ms = JNum (Fin 2), max_ms = JNum (Fin 3),
    raw = JStr win_block\<rparr>"
  unfolding parse_lines_def Let_def win_lines
  by (simp add: parse_unix_stats_def parse_unix_rtt_def parse_win_stats_def parse_win_time_def
      set_loss_def truthy_def NumberOfGroup_def StringToNumber_small rnd_zero floor_half re_defs rx_eval)

section \<open>Captured groups\<close>

lemma rmatch_nogroup:
  "nogroup a \<Longrightarrow> (c', r') \<in> set (rmatch ic inp a (c, r)) \<Longrightarrow> c' = c"
proof (induction a arbitrary: c r c' r')
  case (Cat a b)
  from Cat.prems(2) obtain c1 r1 where
    1: "(c1, r1) \<in> set (rmatch ic inp a (c, r))" and 2: "(c', r') \<in> set (rmatch ic inp b (c1, r1))"
    by auto
  from Cat.IH(1) [OF _ 1] Cat.prems(1) have "c1 = c" by simp
  with Cat.IH(2) [OF _ 2] Cat.prems(1) show ?case by simp
qed (auto split: list.splits if_splits)

lemma rmatch_Grp_Plus:
  assumes "(c', r') \<in> set (rmatch ic inp (Grp n (Plus p)) (c, r))"
  shows "\<exists>ds. c' = (n, ds) # c \<and> ds \<noteq> [] \<and> list_all p ds"
proof -
  let ?n0 = "length (takeWhile p r)"
  from assms obtain k where k: "1 \<le> k" "k \<le> ?n0" and c': "c' = (n, take (length r - length (drop k r)) r) # c"
    by (auto simp: less_Suc_eq_le)
  have n0: "?n0 \<le> length r" by (rule length_takeWhile_le)
  with k have len: "length r - length (drop k r) = k" by simp
  have "take k r = take k (takeWhile p r @ dropWhile p r)" by simp
  also have "\<dots> = take k (takeWhile p r)" using k(2) by (simp del: takeWhile_dropWhile_id)
  finally have tk: "take k r = take k (takeWhile p r)" .
  have "list_all p (takeWhile p r)" by (simp add: list_all_iff) (meson set_takeWhileD)
  then have "list_all p (take k r)" unfolding tk list_all_iff by (meson in_set_takeD)
  moreover have "take k r \<noteq> []" using k n0 by (cases r) auto
  ultimately show ?thesis using c' len by simp
qed

lemma exec_at_Some:
  "exec_at ic inp re s = Some m \<Longrightarrow> \<exists>r r'. (m, r') \<in> set (rmatch ic inp re ([], r))"
proof (induction s)
  case Nil
  then show ?case by (auto split: list.splits) (metis list.set_intros(1))
next
  case (Cons x xs)
  then show ?case by (auto split: list.splits) (metis list.set_intros(1))
qed

lemma plus_class_Some: "plus_class a = Some p \<Longrightarrow> a = Plus p"
  by (cases a) simp_all

lemma rmatch_groups:
  assumes "groups_of p re" and "(c', r') \<in> set (rmatch ic inp re (c, r))"
  shows "\<exists>ds. c' = ds @ c \<and> map fst ds = group_ids re \<and>
              (\<forall>g \<in> set (map snd ds). g \<noteq> [] \<and> list_all p g)"
  using assms
proof (induction re arbitrary: c r c' r')
  case (Cat a b)
  from Cat.prems(2) obtain c1 r1 where
    1: "(c1, r1) \<in> set (rmatch ic inp a (c, r))" and 2: "(c', r') \<in> set (rmatch ic inp b (c1, r1))"
    by auto
  from Cat.IH(1) [OF _ 1] Cat.prems(1) obtain d1 where
    d1: "c1 = d1 @ c" "map fst d1 = group_ids a" "\<forall>g \<in> set (map snd d1). g \<noteq> [] \<and> list_all p g"
    by auto
  from Cat.IH(2) [OF _ 2] Cat.prems(1) obtain d2 where
    d2: "c' = d2 @ c1" "map fst d2 = group_ids b" "\<forall>g \<in> set (map snd d2). g \<noteq> [] \<and> list_all p g"
    by auto
  from d1 d2 show ?case by (intro exI [of _ "d2 @ d1"]) auto
next
  case (Alt a b)
  then have "nogroup (Alt a b)" by simp
  from rmatch_nogroup [OF this Alt.prems(2)] show ?case by simp
next
  case (Grp n a)
  then have "a = Plus p" by (simp add: plus_class_Some)
  with Grp.prems(2) rmatch_Grp_Plus [of c' r' ic inp n p c r] obtain ds where
    "c' = (n, ds) # c" "ds \<noteq> []" "list_all p ds" by blast
  then show ?case by (intro exI [of _ "[(n, ds)]"]) simp
qed (auto split: list.splits if_splits)

lemma rx_exec_groups:
  assumes "groups_of p re" and "rx_exec ic re s = Some m"
  shows "map fst m = group_ids re \<and> (\<forall>g \<in> set (map snd m). g \<noteq> [] \<and> list_all p g)"
proof -
  from exec_at_Some [OF assms(2) [unfolded rx_exec_def]] obtain r r' where
    "(m, r') \<in> set (rmatch ic s re ([], r))" by blast
  from rmatch_groups [OF assms(1) this] show ?thesis by auto
qed

lemma group_value:
  assumes "groups_of p re" and "rx_exec ic re s = Some m" and "i \<in> set (group_ids re)"
  shows "\<exists>g. map_of m i = Some g \<and> g \<noteq> [] \<and> list_all p g"
proof -
  from rx_exec_groups [OF assms(1,2)] have f: "map fst m = group_ids re"
    and a: "\<forall>g \<in> set (map snd m). g \<noteq> [] \<and> list_all p g" by simp_all
  from assms(3) f have "i \<in> fst ` set m" by (metis set_map)
  then obtain g where g: "map_of m i = Some g"
    by (cases "map_of m i") (auto simp: map_of_eq_None_iff)
  from map_of_SomeD [OF g] have "g \<in> set (map snd m)" by force
  with a g show ?thesis by auto
qed

lemma one_group:
  assumes "groups_of p re" and "rx_exec ic re s = Some m" and "group_ids re = [i]"
  shows "\<exists>g. m = [(i, g)] \<and> g \<noteq> [] \<and> list_all p g"
proof -
  from rx_exec_groups [OF assms(1,2)] assms(3) have f: "map fst m = [i]"
    and a: "\<forall>g \<in> set (map snd m). g \<noteq> [] \<and> list_all p g" by simp_all
  from f obtain g where "m = [(i, g)]" by (cases m) auto
  with a show ?thesis by auto
qed

lemma groups_of_res:
  "groups_of isDigit re_unix_stats" "group_ids re_unix_stats = [3, 2, 1]"
  "groups_of isDigitOrDot re_rtt_values" "group_ids re_rtt_values = [3, 2, 1]"
  "groups_of isDigit re_sent" "group_ids re_sent = [1]"
  "groups_of isDigit re_rec" "group_ids re_rec = [1]"
  "groups_of isDigit re_lost" "group_ids re_lost = [1]"
  "groups_of isDigit re_minimum" "group_ids re_minimum = [1]"
  "groups_of isDigit re_average" "group_ids re_average = [1]"
  "groups_of isDigit re_maximum" "group_ids re_maximum = [1]"
  by (simp_all add: re_defs lit_def js_def)

section \<open>The Numbers of the statistics\<close>

lemma round_even_nonneg: "0 \<le> x \<Longrightarrow> 0 \<le> round_even x"
proof -
  assume "0 \<le> x"
  then have "0 \<le> \<lfloor>x\<rfloor>" by simp
  then show ?thesis by (auto simp: round_even_def Let_def)
qed

lemma rnd_pos:
  assumes "0 < q"
  shows "rnd q =
     (if (2::rat) powi 1024 \<le> of_int (round_even (q / 2 powi (max (ilog2 q) (- 1022) - 52))) *
           2 powi (max (ilog2 q) (- 1022) - 52)
      then PosInf
      else Fin (of_int (round_even (q / 2 powi (max (ilog2 q) (- 1022) - 52))) *
           2 powi (max (ilog2 q) (- 1022) - 52)))"
proof -
  have "\<bar>q\<bar> = q" "sgn q = 1" "q \<noteq> 0" "\<not> q < 0" using assms by simp_all
  then show ?thesis unfolding rnd_def Let_def by (simp only: if_False mult_1)
qed

lemma rnd_nonneg: "0 \<le> q \<Longrightarrow> nonneg_num (rnd q)"
proof (cases "q = 0")
  case True
  then show ?thesis by (simp add: rnd_zero nonneg_num_def)
next
  case False
  assume "0 \<le> q"
  with False have q: "0 < q" by simp
  let ?u = "(2::rat) powi (max (ilog2 q) (- 1022) - 52)"
  let ?v = "of_int (round_even (q / ?u)) * ?u"
  have "0 \<le> q / ?u" using q by simp
  from round_even_nonneg [OF this] have v: "0 \<le> ?v" by simp
  show ?thesis
  proof (cases "2 powi 1024 \<le> ?v")
    case True
    then have "rnd q = PosInf" by (simp only: rnd_pos [OF q] if_True)
    then show ?thesis by (simp add: nonneg_num_def)
  next
    case False
    then have "rnd q = Fin ?v" by (simp only: rnd_pos [OF q] if_False)
    with v show ?thesis unfolding nonneg_num_def by blast
  qed
qed

lemma rnd_of_nat: "nat_or_inf (rnd (of_nat n))"
proof (cases "n < 2 ^ 53")
  case True
  then show ?thesis by (auto simp: rnd_nat nat_or_inf_def)
next
  case False
  then have n: "2 ^ 53 \<le> n" by simp
  define q :: rat where "q = of_nat n"
  have "(2::rat) ^ 53 = of_nat (2 ^ 53)" by simp
  also have "\<dots> \<le> q" unfolding q_def using n by (simp only: of_nat_le_iff)
  finally have q53: "2 powi 53 \<le> q" by simp
  then have q: "0 < q" by (smt (verit) zero_less_power_int zero_less_numeral order_less_le_trans)
  from ilog2_ge [OF q q53] have e: "53 \<le> ilog2 q" .
  define k where "k = nat (ilog2 q - 52)"
  have u: "(2::rat) powi (max (ilog2 q) (- 1022) - 52) = 2 ^ k"
    using e by (simp add: power_int_def k_def max_def)
  define m where "m = round_even (q / 2 ^ k)"
  have "0 \<le> q / 2 ^ k" using q by simp
  from round_even_nonneg [OF this] have m: "0 \<le> m" by (simp add: m_def)
  have v: "rat_of_int m * 2 ^ k = of_nat (nat m * 2 ^ k)" using m by simp
  show ?thesis
  proof (cases "(2::rat) powi 1024 \<le> of_int m * 2 ^ k")
    case True
    then have "rnd q = PosInf"
      unfolding rnd_pos [OF q] u m_def [symmetric] by (simp only: if_True)
    then show ?thesis by (simp add: nat_or_inf_def q_def)
  next
    case False
    then have "rnd q = Fin (of_int m * 2 ^ k)"
      unfolding rnd_pos [OF q] u m_def [symmetric] by (simp only: if_False)
    then have "rnd (of_nat n) = Fin (of_nat (nat m * 2 ^ k))" by (simp only: v q_def)
    then show ?thesis unfolding nat_or_inf_def by blast
  qed
qed

lemma nat_or_inf_nonneg: "nat_or_inf x \<Longrightarrow> nonneg_num x"
  by (auto simp: nat_or_inf_def nonneg_num_def)

lemma parse_decimal_nonneg: "parse_decimal s = Some q \<Longrightarrow> 0 \<le> q"
  by (auto simp: parse_decimal_def Let_def split: prod.splits option.splits if_splits list.splits)

lemma isDigitOrDot_not_space: "isDigitOrDot c \<Longrightarrow> \<not> isSpace c"
  by (auto simp: isDigitOrDot_def isDigit_def isSpace_def isWhiteSpace_def isLineTerminator_def)

lemma trim_no_space: "list_all (\<lambda>c. \<not> isSpace c) h \<Longrightarrow> trim h = h"
proof (cases h rule: rev_cases)
  case Nil
  then show ?thesis by (simp add: trim_def)
next
  case (snoc ys y)
  assume a: "list_all (\<lambda>c. \<not> isSpace c) h"
  then have 1: "dropWhile isSpace h = h" by (cases h) auto
  from a snoc have "\<not> isSpace y" by simp
  then have "dropWhile isSpace (rev h) = rev h" using snoc by simp
  with 1 show ?thesis by (simp add: trim_def)
qed

lemma isDigit_not_space: "isDigit c \<Longrightarrow> \<not> isSpace c"
  by (auto simp: isDigit_def isSpace_def isWhiteSpace_def isLineTerminator_def)

lemma StringToNumber_digits:
  assumes "ds \<noteq> []" and "list_all isDigit ds"
  shows "StringToNumber ds = rnd (of_nat (radix_val 10 ds))"
proof -
  have t: "trim ds = ds"
    using assms(2) by (intro trim_no_space) (simp add: list_all_iff isDigit_not_space)
  have p: "radix_prefix ds = None"
    using assms(2) by (auto simp: radix_prefix_def isDigit_def split: list.splits)
  obtain d ds' where ds: "ds = d # ds'" using assms(1) by (cases ds) auto
  with assms(2) have d: "isDigit d" by simp
  then have s: "d \<noteq> 43" "d \<noteq> 45" "d \<noteq> 73" by (auto simp: isDigit_def)
  have i: "ds \<noteq> js ''Infinity''" using ds s by (auto simp: js_def)
  have tw: "takeWhile isDigit ds = ds" "dropWhile isDigit ds = []"
    using assms(2) by (simp_all add: list_all_iff)
  have pd: "parse_decimal ds = Some (of_nat (radix_val 10 ds))"
    using assms(1) by (simp add: parse_decimal_def tw parse_exponent_def radix_val_def)
  show ?thesis
    unfolding StringToNumber_def t Let_def p using assms(1) i pd s
    by (simp add: ds)
qed

lemma StringToNumber_digits_dots:
  assumes "s \<noteq> []" and "list_all isDigitOrDot s"
  shows "StringToNumber s = NaN \<or> nonneg_num (StringToNumber s)"
proof -
  have t: "trim s = s"
    using assms(2) by (intro trim_no_space) (simp add: list_all_iff isDigitOrDot_not_space)
  have p: "radix_prefix s = None"
    using assms(2) by (auto simp: radix_prefix_def isDigitOrDot_def isDigit_def split: list.splits)
  obtain d ds where s: "s = d # ds" using assms(1) by (cases s) auto
  with assms(2) have d: "isDigitOrDot d" by simp
  then have n: "d \<noteq> 43" "d \<noteq> 45" "d \<noteq> 73" by (auto simp: isDigitOrDot_def isDigit_def)
  have i: "s \<noteq> js ''Infinity''" using s n by (auto simp: js_def)
  show ?thesis
  proof (cases "parse_decimal s")
    case None
    then have "StringToNumber s = NaN"
      unfolding StringToNumber_def t Let_def p using assms(1) i n by (simp add: s)
    then show ?thesis by simp
  next
    case (Some q)
    then have "StringToNumber s = rnd q"
      unfolding StringToNumber_def t Let_def p using assms(1) i n by (simp add: s)
    with rnd_nonneg [OF parse_decimal_nonneg [OF Some]] show ?thesis by simp
  qed
qed

lemma NumberOfGroup_count:
  assumes "groups_of isDigit re" and "rx_exec ic re s = Some m" and "i \<in> set (group_ids re)"
  shows "nat_or_inf (NumberOfGroup m i)"
proof -
  from group_value [OF assms] obtain g where
    g: "map_of m i = Some g" "g \<noteq> []" "list_all isDigit g" by blast
  then show ?thesis by (simp add: NumberOfGroup_def StringToNumber_digits rnd_of_nat)
qed

lemma NumberOfGroup_time:
  assumes "groups_of isDigitOrDot re" and "rx_exec ic re s = Some m" and "i \<in> set (group_ids re)"
  shows "NumberOfGroup m i = NaN \<or> nonneg_num (NumberOfGroup m i)"
proof -
  from group_value [OF assms] obtain g where
    g: "map_of m i = Some g" "g \<noteq> []" "list_all isDigitOrDot g" by blast
  then show ?thesis using StringToNumber_digits_dots [of g] by (simp add: NumberOfGroup_def)
qed

text \<open>
  \<open>Math.round((lost / transmitted) * 100)\<close> on two packet counts: a natural number or
  Infinity when \<open>transmitted\<close> is neither 0 nor Infinity, and NaN for 0 / 0 and for
  Infinity / Infinity.
\<close>

lemma MathRound_nonneg: "nonneg_num x \<Longrightarrow> nat_or_inf (MathRound x)"
proof (cases x)
  case (Fin y)
  assume "nonneg_num x"
  with Fin have "0 \<le> y" by (simp add: nonneg_num_def)
  then have "0 \<le> \<lfloor>y + 1 / 2\<rfloor>" by simp
  then have "rat_of_int \<lfloor>y + 1 / 2\<rfloor> = of_nat (nat \<lfloor>y + 1 / 2\<rfloor>)" by simp
  then show ?thesis unfolding Fin nat_or_inf_def MathRound.simps by blast
qed (simp_all add: nonneg_num_def nat_or_inf_def)

lemma fmul_100_nonneg: "nonneg_num x \<Longrightarrow> nonneg_num (fmul x (Fin 100))"
proof (cases x)
  case (Fin y)
  assume "nonneg_num x"
  with Fin have "0 \<le> y * 100" by (simp add: nonneg_num_def)
  from rnd_nonneg [OF this] show ?thesis by (simp add: Fin)
qed (simp_all add: nonneg_num_def)

lemma fdiv_pos_nonneg:
  assumes "nonneg_num l" and "0 < t"
  shows "nonneg_num (fdiv l (Fin t))"
proof (cases l)
  case (Fin a)
  with assms(1) have "0 \<le> a / t" using assms(2) by (simp add: nonneg_num_def)
  from rnd_nonneg [OF this] show ?thesis using assms(2) by (simp add: Fin)
next
  case PosInf
  then show ?thesis using assms(2) by (simp add: nonneg_num_def)
qed (use assms(1) in \<open>simp_all add: nonneg_num_def\<close>)

lemma loss_percent_value:
  assumes "nat_or_inf l" and "nat_or_inf t"
  shows "MathRound (fmul (fdiv l t) (Fin 100)) = NaN \<or>
         nat_or_inf (MathRound (fmul (fdiv l t) (Fin 100)))"
    and "t = Fin 0 \<or> t = PosInf \<or> nat_or_inf (MathRound (fmul (fdiv l t) (Fin 100)))"
proof -
  have pos: "nat_or_inf (MathRound (fmul (fdiv l (Fin (of_nat j))) (Fin 100)))" if "0 < j" for j :: nat
  proof -
    have "(0::rat) < of_nat j" using that by simp
    from fdiv_pos_nonneg [OF nat_or_inf_nonneg [OF assms(1)] this]
    show ?thesis by (intro MathRound_nonneg fmul_100_nonneg)
  qed
  have zero: "MathRound (fmul (fdiv l (Fin 0)) (Fin 100)) = NaN \<or>
              nat_or_inf (MathRound (fmul (fdiv l (Fin 0)) (Fin 100)))"
  proof (cases l)
    case (Fin a)
    show ?thesis
    proof (cases "a = 0")
      case True
      then show ?thesis by (simp add: Fin)
    next
      case False
      with assms(1) Fin have "0 < a" by (auto simp: nat_or_inf_def)
      then show ?thesis by (simp add: Fin nat_or_inf_def)
    qed
  qed (use assms(1) in \<open>simp_all add: nat_or_inf_def\<close>)
  have inf: "MathRound (fmul (fdiv l PosInf) (Fin 100)) = NaN \<or>
             nat_or_inf (MathRound (fmul (fdiv l PosInf) (Fin 100)))"
  proof (cases l)
    case (Fin a)
    have "nat_or_inf (Fin (of_nat 0))" unfolding nat_or_inf_def by blast
    then show ?thesis by (simp add: Fin rnd_zero floor_half)
  qed simp_all
  from assms(2) have c: "t = PosInf \<or> t = Fin 0 \<or> (\<exists>j::nat. 0 < j \<and> t = Fin (of_nat j))"
    unfolding nat_or_inf_def by (metis gr0I of_nat_0)
  from c pos zero inf show "MathRound (fmul (fdiv l t) (Fin 100)) = NaN \<or>
         nat_or_inf (MathRound (fmul (fdiv l t) (Fin 100)))"
    by auto
  from c pos show "t = Fin 0 \<or> t = PosInf \<or> nat_or_inf (MathRound (fmul (fdiv l t) (Fin 100)))"
    by auto
qed

section \<open>Totality of the parser and the types of its statistics\<close>

lemma count_value_simps:
  "count_value JNull" "count_value (JNum x) = nat_or_inf x"
  by (simp_all add: count_value_def)

lemma time_value_simps:
  "time_value JNull" "time_value (JNum x) = (x = NaN \<or> nonneg_num x)"
  by (auto simp: time_value_def)

lemma parse_unix_stats_typed: "typed_unix r \<Longrightarrow> typed_unix (parse_unix_stats ls r)"
  using NumberOfGroup_count [OF groups_of_res(1)]
  by (auto simp: parse_unix_stats_def typed_unix_def typed_fields_def count_value_simps
      groups_of_res(2) split: option.splits)

lemma parse_unix_rtt_typed: "typed_unix r \<Longrightarrow> typed_unix (parse_unix_rtt ls r)"
  using NumberOfGroup_time [OF groups_of_res(3)]
  by (auto simp: parse_unix_rtt_def typed_unix_def typed_fields_def time_value_simps
      groups_of_res(4) split: option.splits)

lemma set_loss_typed:
  assumes "typed_unix r" and "lostMatch = rx_exec True re_lost l"
  shows "typed_win (set_loss lostMatch r)"
proof (cases lostMatch)
  case None
  with assms(1) show ?thesis by (simp add: set_loss_def typed_unix_def typed_win_def typed_fields_def)
next
  case (Some m)
  with assms(2) have "rx_exec True re_lost l = Some m" by simp
  from NumberOfGroup_count [OF groups_of_res(9) this] have l: "nat_or_inf (NumberOfGroup m 1)"
    by (simp add: groups_of_res(10))
  show ?thesis
  proof (cases "transmitted r")
    case (JNum t)
    with assms(1) have t: "nat_or_inf t"
      by (simp add: typed_unix_def typed_fields_def count_value_simps)
    from loss_percent_value [OF l t] assms(1) show ?thesis
      by (auto simp: set_loss_def Some JNum typed_unix_def typed_win_def typed_fields_def
          count_value_simps)
  qed (use assms(1) in \<open>simp_all add: set_loss_def Some typed_unix_def typed_win_def typed_fields_def\<close>)
qed

lemma parse_win_stats_typed:
  assumes "typed_unix r"
  shows "typed_win (parse_win_stats ls r)"
proof (cases "truthy (find (rx_test True re_win_stat_line) ls)")
  case None
  with assms show ?thesis
    by (simp add: parse_win_stats_def typed_unix_def typed_win_def)
next
  case (Some l)
  define r1 where "r1 = (case rx_exec True re_sent l of None \<Rightarrow> r
                     | Some m \<Rightarrow> r\<lparr>transmitted := JNum (NumberOfGroup m 1)\<rparr>)"
  define r2 where "r2 = (case rx_exec True re_rec l of None \<Rightarrow> r1
                     | Some m \<Rightarrow> r1\<lparr>received := JNum (NumberOfGroup m 1)\<rparr>)"
  have 1: "typed_unix r1"
    using assms NumberOfGroup_count [OF groups_of_res(5), of True l]
    by (auto simp: r1_def typed_unix_def typed_fields_def count_value_simps groups_of_res(6)
        split: option.splits)
  have 2: "typed_unix r2"
    using 1 NumberOfGroup_count [OF groups_of_res(7), of True l]
    by (auto simp: r2_def typed_unix_def typed_fields_def count_value_simps groups_of_res(8)
        split: option.splits)
  have "parse_win_stats ls r = set_loss (rx_exec True re_lost l) r2"
    unfolding r2_def r1_def by (simp add: parse_win_stats_def Some Let_def)
  with set_loss_typed [OF 2 refl] show ?thesis by simp
qed

lemma parse_win_time_typed: "typed_win r \<Longrightarrow> typed_win (parse_win_time ls r)"
  using nat_or_inf_nonneg [OF NumberOfGroup_count [OF groups_of_res(11)]]
    nat_or_inf_nonneg [OF NumberOfGroup_count [OF groups_of_res(13)]]
    nat_or_inf_nonneg [OF NumberOfGroup_count [OF groups_of_res(15)]]
  by (auto simp: parse_win_time_def Let_def typed_win_def typed_fields_def time_value_simps
      groups_of_res(12,14,16) split: option.splits)

lemma parse_raw:
  "raw (parse_unix_stats ls r) = raw r" "raw (parse_unix_rtt ls r) = raw r"
  "raw (parse_win_stats ls r) = raw r" "raw (parse_win_time ls r) = raw r"
  by (simp_all add: parse_unix_stats_def parse_unix_rtt_def parse_win_stats_def parse_win_time_def
      set_loss_def Let_def split: option.splits jsval.splits)

lemma parse_lines_typed: "typed_win (parse_lines output) \<and> raw (parse_lines output) = JStr output"
proof -
  have "typed_unix \<lparr>transmitted = JNull, received = JNull, loss = JNull, min_ms = JNull,
                     avg_ms = JNull, max_ms = JNull, raw = JStr output\<rparr>"
    by (simp add: typed_unix_def typed_fields_def count_value_simps time_value_simps)
  then have "typed_win (parse_lines output)"
    unfolding parse_lines_def Let_def
    by (intro parse_win_time_typed parse_win_stats_typed parse_unix_rtt_typed parse_unix_stats_typed)
  then show ?thesis by (simp add: parse_lines_def Let_def parse_raw)
qed

lemma win_line_nonempty: "\<not> rx_test True re_win_stat_line []"
  by (simp add: re_defs rx_eval)

lemma parse_win_time_keep:
  "transmitted (parse_win_time ls r) = transmitted r"
  "received (parse_win_time ls r) = received r"
  "loss (parse_win_time ls r) = loss r"
  by (simp_all add: parse_win_time_def Let_def split: option.splits)

lemma set_loss_keep:
  "transmitted (set_loss m r) = transmitted r" "received (set_loss m r) = received r"
  by (simp_all add: set_loss_def split: option.splits jsval.splits)

lemma win_line_truthy:
  assumes "find (rx_test True re_win_stat_line) ls = Some l"
  shows "truthy (find (rx_test True re_win_stat_line) ls) = Some l"
proof -
  from assms have "rx_test True re_win_stat_line l" by (auto simp: find_Some_iff)
  with win_line_nonempty have "l \<noteq> []" by auto
  with assms show ?thesis by (simp add: truthy_def)
qed

lemma parse_win_stats_sent:
  assumes "find (rx_test True re_win_stat_line) ls = Some l" and "rx_exec True re_sent l = Some ms"
  shows "transmitted (parse_win_stats ls r) = JNum (NumberOfGroup ms 1)"
  by (simp add: parse_win_stats_def Let_def win_line_truthy [OF assms(1)] assms(2) set_loss_keep
      split: option.splits)

text \<open>Evaluations: the Unix block of the specification and three inputs off the beaten track.\<close>

lemma StringToNumber_times:
  "StringToNumber (js ''1.000'') = Fin 1" "StringToNumber (js ''2.000'') = Fin 2"
  "StringToNumber (js ''3.000'') = Fin 3" "StringToNumber [46] = NaN"
  using rnd_nat [of 1] rnd_nat [of 2] rnd_nat [of 3]
  by (simp_all add: num_eval js_def)

lemma unix_lines:
  "split_lines unix_block =
     [js ''4 packets transmitted, 4 received, 0% packet loss'',
      js ''rtt min/avg/max/mdev = 1.000/2.000/3.000/0.500 ms'']"
  by (simp add: split_lines_def unix_block_def js_def)

lemmas parse_eval = split_lines_def parse_unix_stats_def parse_unix_rtt_def parse_win_stats_def
  parse_win_time_def set_loss_def truthy_def NumberOfGroup_def StringToNumber_small

lemma unix_parse:
  "parse_lines unix_block =
   \<lparr>transmitted = JNum (Fin 4), received = JNum (Fin 4), loss = JNum (Fin 0),
    min_ms = JNum (Fin 1), avg_ms = JNum (Fin 2), max_ms = JNum (Fin 3),
    raw = JStr unix_block\<rparr>"
  unfolding parse_lines_def Let_def unix_lines
  by (simp add: parse_eval StringToNumber_times [unfolded js_def, simplified] re_defs rx_eval)

lemma dot_parse:
  "parse_lines (js ''rtt min/avg/max = ./1/2'') =
   \<lparr>transmitted = JNull, received = JNull, loss = JNull,
    min_ms = JNum NaN, avg_ms = JNum (Fin 1), max_ms = JNum (Fin 2),
    raw = JStr (js ''rtt min/avg/max = ./1/2'')\<rparr>"
  unfolding parse_lines_def Let_def
  by (simp add: parse_eval StringToNumber_times re_defs rx_eval)

lemma zero_parse:
  "parse_lines (js ''Packets: Sent = 0, Received = 0, Lost = 0'') =
   \<lparr>transmitted = JNum (Fin 0), received = JNum (Fin 0), loss = JNum NaN,
    min_ms = JNull, avg_ms = JNull, max_ms = JNull,
    raw = JStr (js ''Packets: Sent = 0, Received = 0, Lost = 0'')\<rparr>"
  unfolding parse_lines_def Let_def
  by (simp add: parse_eval re_defs rx_eval)

lemma round_even_ge: "of_int N \<le> x \<Longrightarrow> N \<le> round_even x"
proof -
  assume "of_int N \<le> x"
  then have "N \<le> \<lfloor>x\<rfloor>" by (simp add: le_floor_iff)
  then show ?thesis by (auto simp: round_even_def Let_def)
qed

lemma rnd_overflow:
  assumes "2 powi 1024 \<le> q"
  shows "rnd q = PosInf"
proof -
  have q: "0 < q" using assms by (smt (verit) zero_less_power_int zero_less_numeral order_less_le_trans)
  define e where "e = ilog2 q"
  from ilog2_ge [OF q assms] have e: "1024 \<le> e" by (simp add: e_def)
  define u :: rat where "u = 2 powi (e - 52)"
  have upos: "0 < u" by (simp add: u_def)
  have m: "max (ilog2 q) (- 1022) = e" using e by (simp add: e_def)
  have "e = 52 + (e - 52)" by simp
  then have "(2::rat) powi e = 2 powi (52 + (e - 52))" by (simp only:)
  also have "\<dots> = 2 powi 52 * 2 powi (e - 52)" by (subst power_int_add) simp_all
  finally have pe: "(2::rat) powi e = 2 ^ 52 * u" by (simp add: u_def)
  have "2 powi e \<le> q" using ilog2_bounds [OF q] by (simp add: e_def)
  then have "of_int (2 ^ 52) \<le> q / u" using upos by (simp add: pe pos_le_divide_eq)
  from round_even_ge [OF this] have "rat_of_int (2 ^ 52) \<le> of_int (round_even (q / u))"
    by (simp only: of_int_le_iff)
  then have "2 ^ 52 * u \<le> of_int (round_even (q / u)) * u" using upos by simp
  then have "2 powi e \<le> of_int (round_even (q / u)) * u" by (simp only: pe)
  moreover have "(2::rat) powi 1024 \<le> 2 powi e" using e by (intro power_int_increasing) simp_all
  ultimately have "2 powi 1024 \<le> of_int (round_even (q / u)) * u" by (rule order_trans [rotated])
  then show ?thesis unfolding rnd_pos [OF q] m u_def by (simp only: if_True)
qed

lemma rmatch_Grp_Plus_hd:
  assumes "takeWhile p r \<noteq> []"
  shows "\<exists>rest. rmatch ic inp (Grp n (Plus p)) (c, r) = ((n, takeWhile p r) # c, dropWhile p r) # rest"
proof -
  let ?k = "length (takeWhile p r)"
  have k: "0 < ?k" using assms by simp
  then obtain j where j: "?k = Suc j" by (cases ?k) auto
  have "rev [1 ..< Suc ?k] = ?k # rev [1 ..< ?k]" using k by (simp add: j)
  then have "rmatch ic inp (Plus p) (c, r) = (c, drop ?k r) # map (\<lambda>k. (c, drop k r)) (rev [1 ..< ?k])"
    by simp
  moreover have "drop ?k r = dropWhile p r" by (metis dropWhile_eq_drop)
  moreover have "take (length r - length (dropWhile p r)) r = takeWhile p r"
    by (metis add_diff_cancel_right' length_append takeWhile_dropWhile_id takeWhile_eq_take)
  ultimately show ?thesis by simp
qed

lemma big_is_digits: "list_all isDigit big_count"
  by (simp add: big_count_def js_def isDigit_def)

lemma big_no_space: "takeWhile isSpace big_count = []"
  by (simp add: big_count_def js_def isSpace_def isWhiteSpace_def isLineTerminator_def)

lemma big_sent: "rx_exec True re_sent (js ''Packets: Sent = '' @ big_count) = Some [(1, big_count)]"
proof -
  have t: "takeWhile isDigit big_count = big_count" "dropWhile isDigit big_count = []"
    using big_is_digits by (simp_all add: list_all_iff)
  have "big_count \<noteq> []" by (simp add: big_count_def js_def)
  with rmatch_Grp_Plus_hd [of isDigit big_count True "js ''Packets: Sent = '' @ big_count" 1 "[]"] t
  obtain rest where
    "rmatch True (js ''Packets: Sent = '' @ big_count) (Grp 1 (Plus isDigit)) ([], big_count) =
       ([(1, big_count)], []) # rest" by auto
  then show ?thesis
    by (simp add: re_sent_def rx_exec_def lit_def js_def chr_eq_def canon_def isSpace_def
        isWhiteSpace_def isLineTerminator_def big_no_space del: rmatch.simps(11))
qed

lemma big_find:
  "find (rx_test True re_win_stat_line) (split_lines (js ''Packets: Sent = '' @ big_count)) =
     Some (js ''Packets: Sent = '' @ big_count)"
proof -
  have "split_lines (js ''Packets: Sent = '' @ big_count) = [js ''Packets: Sent = '' @ big_count]"
    by (simp add: split_lines_def big_count_def js_def)
  then show ?thesis
    by (simp add: re_win_stat_line_def rx_test_def rx_exec_def lit_def js_def chr_eq_def canon_def)
qed

lemma big_value: "StringToNumber big_count = PosInf"
proof -
  have n: "big_count \<noteq> []" by (simp add: big_count_def js_def)
  have "(2::rat) powi 1024 \<le> of_nat (radix_val 10 big_count)"
    by (simp add: big_count_def js_def radix_val_def digitVal_def isDigit_def)
  from rnd_overflow [OF this] show ?thesis
    by (simp only: StringToNumber_digits [OF n big_is_digits])
qed

lemma big_parse: "transmitted (parse_lines (js ''Packets: Sent = '' @ big_count)) = JNum PosInf"
  unfolding parse_lines_def Let_def parse_win_time_keep parse_win_stats_sent [OF big_find big_sent]
  by (simp add: NumberOfGroup_def big_value)

text \<open>
  C4 (as the claim states it): every statistic is a correctly typed value or \<open>null\<close>,
  where the specification types \<open>transmitted\<close>, \<open>received\<close> and \<open>lossPercent\<close> as
  \<open>integer|null\<close>. This fails. A summary line with no packet sent gives the loss
  0 / 0, which is NaN; a round-trip line whose first number is a lone dot gives the
  minimum \<open>Number('.')\<close>, which is NaN; a count of 309 digits gives Infinity.
\<close>

theorem parsePingResult_not_typed:
  "parsePingResult (JStr (js ''Packets: Sent = 0, Received = 0, Lost = 0'')) =
     Inr \<lparr>transmitted = JNum (Fin 0), received = JNum (Fin 0), loss = JNum NaN,
          min_ms = JNull, avg_ms = JNull, max_ms = JNull,
          raw = JStr (js ''Packets: Sent = 0, Received = 0, Lost = 0'')\<rparr> \<and>
   \<not> integer_or_null (JNum NaN) \<and>
   parsePingResult (JStr (js ''rtt min/avg/max = ./1/2'')) =
     Inr \<lparr>transmitted = JNull, received = JNull, loss = JNull,
          min_ms = JNum NaN, avg_ms = JNum (Fin 1), max_ms = JNum (Fin 2),
          raw = JStr (js ''rtt min/avg/max = ./1/2'')\<rparr> \<and>
   (\<exists>r. parsePingResult (JStr (js ''Packets: Sent = '' @ big_count)) = Inr r \<and>
        transmitted r = JNum PosInf) \<and>
   \<not> integer_or_null (JNum PosInf)"
  using zero_parse dot_parse big_parse by (simp add: integer_or_null_def)

text \<open>
  C4 (amended): on every string the parser returns (it is a total function of the model
  and takes no error branch) and \<open>raw\<close> is the whole input. \<open>transmitted\<close> and
  \<open>received\<close> are \<open>null\<close> or a natural number or Infinity; \<open>min\<close>, \<open>avg\<close> and
  \<open>max\<close> are \<open>null\<close>, NaN, or a Number that is not negative (Infinity included);
  \<open>loss\<close> is \<open>null\<close>, NaN, a natural number or Infinity, and it is not NaN when
  \<open>transmitted\<close> is neither 0 nor Infinity.
\<close>

theorem parsePingResult_total:
  "\<exists>r. parsePingResult (JStr output) = Inr r \<and> raw r = JStr output \<and>
       count_value (transmitted r) \<and> count_value (received r) \<and>
       time_value (min_ms r) \<and> time_value (avg_ms r) \<and> time_value (max_ms r) \<and>
       (loss r = JNum NaN \<or> count_value (loss r)) \<and>
       (transmitted r \<noteq> JNum (Fin 0) \<and> transmitted r \<noteq> JNum PosInf \<longrightarrow> count_value (loss r))"
  using parse_lines_typed [of "output"]
  by (auto simp: typed_win_def typed_fields_def)

theorem parsePingResult_total_witness:
  "\<exists>r. parsePingResult (JStr unix_block) = Inr r \<and> raw r = JStr unix_block \<and>
       transmitted r = JNum (Fin 4) \<and> received r = JNum (Fin 4) \<and> loss r = JNum (Fin 0) \<and>
       min_ms r = JNum (Fin 1) \<and> avg_ms r = JNum (Fin 2) \<and> max_ms r = JNum (Fin 3) \<and>
       transmitted r \<noteq> JNum (Fin 0) \<and> transmitted r \<noteq> JNum PosInf \<and> count_value (loss r)"
proof -
  from parsePingResult_total [of unix_block] obtain r where
    r: "parsePingResult (JStr unix_block) = Inr r"
    and c: "transmitted r \<noteq> JNum (Fin 0) \<and> transmitted r \<noteq> JNum PosInf \<longrightarrow> count_value (loss r)"
    by blast
  from r have p: "r = parse_lines unix_block" by simp
  have t: "transmitted r \<noteq> JNum (Fin 0)" "transmitted r \<noteq> JNum PosInf"
    by (simp_all add: p unix_parse)
  with c have "count_value (loss r)" by simp
  with t r show ?thesis by (simp add: p unix_parse)
qed

section \<open>The Windows dialect\<close>

text \<open>
  \<open>rnd\<close> gives a double that is nearest to its argument, and a finite one below
  2^1024; \<open>rnd_eval\<close> computes it from the exponent and the rounded significand.
\<close>

lemma round_even_half: "\<bar>rat_of_int (round_even x) - x\<bar> \<le> 1 / 2"
proof -
  define f where "f = \<lfloor>x\<rfloor>"
  define r where "r = x - rat_of_int f"
  have r: "0 \<le> r" "r < 1" unfolding r_def f_def by linarith+
  have x: "x = rat_of_int f + r" by (simp add: r_def)
  have "round_even x =
      (if r < 1 / 2 then f else if 1 / 2 < r then f + 1 else if even f then f else f + 1)"
    by (simp add: round_even_def Let_def f_def r_def)
  then show ?thesis using r unfolding x by (auto simp: abs_if)
qed

lemma scale_abs: "0 < (u::rat) \<Longrightarrow> \<bar>a * u - q\<bar> = u * \<bar>a - q / u\<bar>"
proof -
  assume u: "0 < u"
  have "u * \<bar>a - q / u\<bar> = \<bar>u * (a - q / u)\<bar>" using u by (simp add: abs_mult)
  also have "u * (a - q / u) = a * u - q" using u by (simp add: algebra_simps)
  finally show ?thesis by simp
qed

lemma round_even_nearest: "\<bar>rat_of_int (round_even x) - x\<bar> \<le> \<bar>rat_of_int n - x\<bar>"
proof (cases "n = round_even x")
  case True
  then show ?thesis by simp
next
  case False
  then have "1 \<le> \<bar>n - round_even x\<bar>" by simp
  then have "rat_of_int 1 \<le> rat_of_int \<bar>n - round_even x\<bar>" by (simp only: of_int_le_iff)
  then have "1 \<le> \<bar>rat_of_int n - rat_of_int (round_even x)\<bar>" by simp
  with round_even_half [of x] show ?thesis by linarith
qed

lemma round_even_eq:
  assumes "rat_of_int m - 1 / 2 < x" and "x < rat_of_int m + 1 / 2"
  shows "round_even x = m"
proof (cases "rat_of_int m \<le> x")
  case True
  with assms(2) have "\<lfloor>x\<rfloor> = m" by (simp add: floor_eq_iff)
  with assms(2) show ?thesis by (simp add: round_even_def Let_def)
next
  case False
  with assms(1) have "\<lfloor>x\<rfloor> = m - 1" by (simp add: floor_eq_iff)
  with assms(1) show ?thesis by (simp add: round_even_def Let_def)
qed

lemma round_even_le: "x \<le> rat_of_int N \<Longrightarrow> round_even x \<le> N"
proof -
  assume a: "x \<le> rat_of_int N"
  have f: "rat_of_int \<lfloor>x\<rfloor> \<le> x" by linarith
  show ?thesis
  proof (cases "\<lfloor>x\<rfloor> = N")
    case True
    with a f have "x - rat_of_int \<lfloor>x\<rfloor> = 0" by simp
    then show ?thesis using True by (simp add: round_even_def Let_def)
  next
    case False
    from a have "\<lfloor>x\<rfloor> \<le> N" by (simp add: floor_le_iff)
    with False have "\<lfloor>x\<rfloor> + 1 \<le> N" by simp
    then show ?thesis by (auto simp: round_even_def Let_def)
  qed
qed

lemma powi_split: "j \<le> k \<Longrightarrow> (2::rat) powi k = of_int (2 ^ nat (k - j)) * 2 powi j"
proof -
  assume "j \<le> k"
  have "(2::rat) powi k = 2 powi ((k - j) + j)" by simp
  also have "\<dots> = 2 powi (k - j) * 2 powi j" by (subst power_int_add) simp_all
  also have "(2::rat) powi (k - j) = 2 ^ nat (k - j)" using \<open>j \<le> k\<close> by (simp add: power_int_def)
  finally show ?thesis by simp
qed

lemma representable_multiple:
  assumes "representable d" and "d \<noteq> 0" and "j \<le> max (ilog2 \<bar>d\<bar>) (- 1022) - 52"
  shows "\<exists>n. \<bar>d\<bar> = rat_of_int n * 2 powi j"
proof -
  from assms(1,2) obtain m where "\<bar>d\<bar> = of_int m * 2 powi (max (ilog2 \<bar>d\<bar>) (- 1022) - 52)"
    by (auto simp: representable_def)
  also have "\<dots> = of_int (m * 2 ^ nat (max (ilog2 \<bar>d\<bar>) (- 1022) - 52 - j)) * 2 powi j"
    by (subst powi_split [OF assms(3)]) simp
  finally show ?thesis by blast
qed

lemma rnd_nearest:
  assumes "0 \<le> q" and "rnd q = Fin x"
  shows "nearest_double q x"
proof (cases "q = 0")
  case True
  with assms(2) have "x = 0" by (simp add: rnd_zero)
  with True show ?thesis by (simp add: nearest_double_def representable_def)
next
  case False
  with assms(1) have q: "0 < q" by simp
  define e where "e = max (ilog2 q) (- 1022)"
  define u :: rat where "u = 2 powi (e - 52)"
  define m where "m = round_even (q / u)"
  have upos: "0 < u" by (simp add: u_def)
  have x: "x = of_int m * u"
    using assms(2) unfolding rnd_pos [OF q] e_def [symmetric] u_def [symmetric] m_def [symmetric]
    by (simp split: if_splits)
  have A: "\<bar>x - q\<bar> \<le> \<bar>rat_of_int n * u - q\<bar>" for n
  proof -
    have "\<bar>x - q\<bar> = u * \<bar>rat_of_int m - q / u\<bar>"
      unfolding x by (rule scale_abs [OF upos])
    also have "\<dots> \<le> u * \<bar>rat_of_int n - q / u\<bar>"
      using round_even_nearest [of "q / u" n] upos by (simp add: m_def)
    also have "\<dots> = \<bar>rat_of_int n * u - q\<bar>"
      by (rule scale_abs [OF upos, symmetric])
    finally show ?thesis .
  qed
  have "\<bar>x - q\<bar> \<le> \<bar>d - q\<bar>" if d: "representable d" for d
  proof (cases "d \<le> 0")
    case True
    from A [of 0] have "\<bar>x - q\<bar> \<le> q" using q by simp
    also have "q \<le> \<bar>d - q\<bar>" using True q by simp
    finally show ?thesis .
  next
    case False
    then have dpos: "0 < d" by simp
    show ?thesis
    proof (cases "e \<le> max (ilog2 d) (- 1022)")
      case True
      then have "e - 52 \<le> max (ilog2 \<bar>d\<bar>) (- 1022) - 52" using dpos by simp
      from representable_multiple [OF d _ this] dpos obtain n where "d = rat_of_int n * u"
        by (auto simp: u_def)
      with A [of n] show ?thesis by simp
    next
      case False
      then have e: "e = ilog2 q" and lt: "ilog2 d < ilog2 q" by (simp_all add: e_def)
      have "d < 2 powi (ilog2 d + 1)" using ilog2_bounds [OF dpos] by simp
      also have "\<dots> \<le> 2 powi (ilog2 q)" using lt by (intro power_int_increasing) simp_all
      finally have d2: "d < 2 powi e" by (simp add: e)
      have le: "2 powi e \<le> q" using ilog2_bounds [OF q] by (simp add: e)
      have "(2::rat) powi e = of_int (2 ^ nat (e - (e - 52))) * 2 powi (e - 52)"
        by (rule powi_split) simp
      then have "(2::rat) powi e = rat_of_int (2 ^ 52) * u" by (simp add: u_def)
      with A [of "2 ^ 52"] have "\<bar>x - q\<bar> \<le> \<bar>2 powi e - q\<bar>" by simp
      also have "\<dots> = q - 2 powi e" using le by simp
      also have "\<dots> \<le> \<bar>d - q\<bar>" using d2 le by simp
      finally show ?thesis .
    qed
  qed
  with rnd_representable [OF assms(2)] show ?thesis by (simp add: nearest_double_def)
qed

lemma rnd_finite:
  assumes "0 \<le> q" and "q \<le> 2 powi k" and "0 \<le> k" and "k \<le> 1023"
  shows "\<exists>x. rnd q = Fin x \<and> 0 \<le> x \<and> x \<le> 2 powi k"
proof (cases "q = 0")
  case True
  then show ?thesis by (simp add: rnd_zero)
next
  case False
  with assms(1) have q: "0 < q" by simp
  define e where "e = max (ilog2 q) (- 1022)"
  define u :: rat where "u = 2 powi (e - 52)"
  define m where "m = round_even (q / u)"
  have upos: "0 < u" by (simp add: u_def)
  have "2 powi (ilog2 q) \<le> q" using ilog2_bounds [OF q] by simp
  with assms(2) have "(2::rat) powi (ilog2 q) \<le> 2 powi k" by simp
  then have "ilog2 q \<le> k"
    by (smt (verit) power_int_strict_increasing one_less_numeral_iff semiring_norm(76) not_less)
  then have ek: "e - 52 \<le> k" using assms(3) by (simp add: e_def)
  define N :: int where "N = 2 ^ nat (k - (e - 52))"
  have pk: "(2::rat) powi k = of_int N * u" unfolding N_def u_def by (rule powi_split [OF ek])
  have "q / u \<le> of_int N" using assms(2) upos by (simp add: pk pos_divide_le_eq)
  from round_even_le [OF this] have "m \<le> N" by (simp add: m_def)
  then have "rat_of_int m \<le> rat_of_int N" by (simp only: of_int_le_iff)
  then have le: "of_int m * u \<le> 2 powi k" using upos by (simp add: pk)
  have "0 \<le> q / u" using q upos by simp
  from round_even_nonneg [OF this] have m0: "0 \<le> of_int m * u" using upos by (simp add: m_def)
  have "(2::rat) powi k < 2 powi 1024" using assms(4) by (intro power_int_strict_increasing) simp_all
  with le have "\<not> 2 powi 1024 \<le> of_int m * u" by simp
  then have "rnd q = Fin (of_int m * u)"
    unfolding rnd_pos [OF q] e_def [symmetric] u_def [symmetric] m_def [symmetric]
    by (simp only: if_False)
  with le m0 show ?thesis by blast
qed

lemma rnd_eval:
  assumes "2 powi e \<le> q" and "q < 2 powi (e + 1)" and "- 1022 \<le> e"
    and "rat_of_int m - 1 / 2 < q / 2 powi (e - 52)" and "q / 2 powi (e - 52) < rat_of_int m + 1 / 2"
    and "rat_of_int m * 2 powi (e - 52) < 2 powi 1024"
  shows "rnd q = Fin (rat_of_int m * 2 powi (e - 52))"
proof -
  have q: "0 < q" using assms(1) by (smt (verit) zero_less_power_int zero_less_numeral order_less_le_trans)
  have e: "max (ilog2 q) (- 1022) = e" using ilog2_unique [OF assms(1,2)] assms(3) by simp
  have m: "round_even (q / 2 powi (e - 52)) = m" by (rule round_even_eq [OF assms(4,5)])
  show ?thesis unfolding rnd_pos [OF q] e m using assms(6) by simp
qed

lemma rnd_23_40: "rnd (23 / 40) = Fin (5179139571476070 / 2 ^ 53)"
  using rnd_eval [of "- 1" "23 / 40" 5179139571476070]
  by (simp add: power_int_minus field_simps)

lemma rnd_23_40_100: "rnd (5179139571476070 / 2 ^ 53 * 100) = Fin (8092405580431359 / 2 ^ 47)"
  using rnd_eval [of 5 "5179139571476070 / 2 ^ 53 * 100" 8092405580431359]
  by (simp add: power_int_minus field_simps)

lemma loss_23_40: "MathRound (fmul (fdiv (Fin 23) (Fin 40)) (Fin 100)) = Fin 57"
proof -
  have "\<lfloor>(8092405580431359::rat) / 2 ^ 47 + 1 / 2\<rfloor> = 57" by (simp add: floor_eq_iff)
  then show ?thesis
    by (simp only: fdiv.simps fmul.simps MathRound.simps rnd_23_40 rnd_23_40_100 if_False
        numeral_neq_zero zero_neq_numeral of_int_numeral)
qed


lemma rnd_1_3: "rnd (1 / 3) = Fin (6004799503160661 / 2 ^ 54)"
  using rnd_eval [of "- 2" "1 / 3" 6004799503160661]
  by (simp add: power_int_minus field_simps)

lemma rnd_1_3_100: "rnd (6004799503160661 / 2 ^ 54 * 100) = Fin (4691249611844266 / 2 ^ 47)"
  using rnd_eval [of 5 "6004799503160661 / 2 ^ 54 * 100" 4691249611844266]
  by (simp add: power_int_minus field_simps)

lemma parse_win_stats_found:
  assumes "find (rx_test True re_win_stat_line) ls = Some l"
    and "rx_exec True re_sent l = Some ms"
    and "rx_exec True re_rec l = Some mr"
    and "rx_exec True re_lost l = Some ml"
  shows "transmitted (parse_win_stats ls r) = JNum (NumberOfGroup ms 1) \<and>
         received (parse_win_stats ls r) = JNum (NumberOfGroup mr 1) \<and>
         loss (parse_win_stats ls r) =
           JNum (MathRound (fmul (fdiv (NumberOfGroup ml 1) (NumberOfGroup ms 1)) (Fin 100)))"
proof -
  from assms(1) have "rx_test True re_win_stat_line l" by (auto simp: find_Some_iff)
  with win_line_nonempty have "l \<noteq> []" by auto
  with assms(1) have "truthy (find (rx_test True re_win_stat_line) ls) = Some l"
    by (simp add: truthy_def)
  then show ?thesis
    by (simp add: parse_win_stats_def Let_def assms(2-4) set_loss_def)
qed

lemma windows_groups_are_integers:
  assumes "rx_exec True re l = Some m" and "re = re_sent \<or> re = re_rec \<or> re = re_lost"
  shows "\<exists>ds. m = [(1, ds)] \<and> ds \<noteq> [] \<and> list_all isDigit ds \<and>
              NumberOfGroup m 1 = rnd (of_nat (radix_val 10 ds))"
proof -
  from assms(2) groups_of_res have "groups_of isDigit re" "group_ids re = [1]" by auto
  from one_group [OF this(1) assms(1) this(2)] obtain ds where
    ds: "m = [(1, ds)]" "ds \<noteq> []" "list_all isDigit ds" by blast
  then have "NumberOfGroup m 1 = rnd (of_nat (radix_val 10 ds))"
    by (simp add: NumberOfGroup_def StringToNumber_digits)
  with ds show ?thesis by blast
qed

text \<open>
  \<open>Math.round((lost / transmitted) * 100)\<close> on two integers below 2^53,
  \<open>transmitted\<close> not 0, without the operators of Numbers: the quotient is rounded to a
  nearest double \<open>x\<close>, the product \<open>x * 100\<close> to a nearest double \<open>y\<close>, and \<open>y\<close>
  to the nearest integer, a tie upwards.
\<close>

lemma loss_percent_doubles:
  assumes "0 < S" and "S < 2 ^ 53" and "L < 2 ^ 53"
  shows "\<exists>x y. rnd (of_nat L / of_nat S) = Fin x \<and> nearest_double (of_nat L / of_nat S) x \<and>
               rnd (x * 100) = Fin y \<and> nearest_double (x * 100) y \<and>
               MathRound (fmul (fdiv (rnd (of_nat L)) (rnd (of_nat S))) (Fin 100)) =
                 Fin (of_int \<lfloor>y + 1 / 2\<rfloor>)"
proof -
  let ?q = "rat_of_nat L / rat_of_nat S"
  have S1: "(1::rat) \<le> of_nat S" using assms(1) by simp
  have q0: "0 \<le> ?q" by simp
  have "rat_of_nat L * 1 \<le> rat_of_nat L * rat_of_nat S" using S1 by (intro mult_left_mono) simp_all
  then have "?q \<le> of_nat L" using assms(1) by (simp add: divide_le_eq)
  also have "rat_of_nat L \<le> of_nat (2 ^ 53)" using assms(3) by (simp only: of_nat_le_iff)
  finally have q53: "?q \<le> 2 powi 53" by simp
  from rnd_finite [OF q0 q53] obtain x where x: "rnd ?q = Fin x" "0 \<le> x" "x \<le> 2 powi 53"
    by auto
  have x0: "0 \<le> x * 100" using x(2) by simp
  have "x * 100 \<le> 2 powi 53 * 128" using x(3) by simp
  also have "(2::rat) powi 53 * 128 = 2 powi 60" by simp
  finally have x60: "x * 100 \<le> 2 powi 60" .
  from rnd_finite [OF x0 x60] obtain y where y: "rnd (x * 100) = Fin y" by auto
  have "fdiv (rnd (of_nat L)) (rnd (of_nat S)) = rnd ?q"
    using assms by (simp add: rnd_nat)
  then have "MathRound (fmul (fdiv (rnd (of_nat L)) (rnd (of_nat S))) (Fin 100)) =
      Fin (of_int \<lfloor>y + 1 / 2\<rfloor>)"
    by (simp add: x(1) y)
  with x(1) y rnd_nearest [OF q0 x(1)] rnd_nearest [OF x0 y] show ?thesis by blast
qed

text \<open>
  C5 (as the claim states it): the loss is the rounded value of lost / transmitted * 100.
  This fails for Sent = 40 and Lost = 23: the percentage is 57.5, which rounds to 58, and
  the parser gives 57, because the double nearest to 23 / 40 is below 23 / 40 and 100
  times it rounds to the double 57.49999999999999.
\<close>

theorem parse_windows_loss_inexact:
  "(\<exists>r. parsePingResult (JStr (js ''Packets: Sent = 40, Received = 17, Lost = 23 (57% loss)'')) = Inr r \<and>
        transmitted r = JNum (Fin 40) \<and> received r = JNum (Fin 17) \<and> loss r = JNum (Fin 57)) \<and>
   round_percent 23 40 = 58"
proof -
  let ?l = "js ''Packets: Sent = 40, Received = 17, Lost = 23 (57% loss)''"
  have f: "find (rx_test True re_win_stat_line) (split_lines ?l) = Some ?l"
    by (simp add: split_lines_def re_defs rx_eval)
  have m: "rx_exec True re_sent ?l = Some [(1, js ''40'')]"
    "rx_exec True re_rec ?l = Some [(1, js ''17'')]"
    "rx_exec True re_lost ?l = Some [(1, js ''23'')]"
    by (simp_all add: re_defs rx_eval)
  have n: "NumberOfGroup [(1, js ''40'')] 1 = Fin 40" "NumberOfGroup [(1, js ''17'')] 1 = Fin 17"
    "NumberOfGroup [(1, js ''23'')] 1 = Fin 23"
    using rnd_nat [of 40] rnd_nat [of 17] rnd_nat [of 23]
    by (simp_all add: NumberOfGroup_def num_eval)
  from parse_win_stats_found [OF f m]
  have "transmitted (parse_lines ?l) = JNum (Fin 40) \<and> received (parse_lines ?l) = JNum (Fin 17) \<and>
        loss (parse_lines ?l) = JNum (Fin 57)"
    unfolding parse_lines_def Let_def parse_win_time_keep n loss_23_40 .
  moreover have "round_percent 23 40 = 58"
    by (simp add: round_percent_def floor_eq_iff)
  ultimately show ?thesis by simp
qed

text \<open>
  C5 (amended): when the first line matching \<open>Packets: Sent =\<close> yields the three
  matches for Sent, Received and Lost, each match holds one group of digits; for a run
  of digits that denotes an integer below 2^53 the parser sets \<open>transmitted\<close> and
  \<open>received\<close> to that integer; and when \<open>transmitted\<close> is not 0, \<open>loss\<close> is
  \<open>Math.round((lost / transmitted) * 100)\<close> in double arithmetic: a double \<open>x\<close>
  nearest to lost / transmitted, a double \<open>y\<close> nearest to \<open>x * 100\<close>, and the
  integer nearest to \<open>y\<close>, a tie upwards. On the block of the claim the parser yields
  4, 4, 0 and 1, 2, 3 milliseconds.
\<close>

theorem parse_windows_dialect:
  "(find (rx_test True re_win_stat_line) (split_lines output) = Some l \<and>
    rx_exec True re_sent l = Some ms \<and> rx_exec True re_rec l = Some mr \<and>
    rx_exec True re_lost l = Some ml \<longrightarrow>
      (\<exists>r sent recd lost.
           ms = [(1, sent)] \<and> mr = [(1, recd)] \<and> ml = [(1, lost)] \<and>
           sent \<noteq> [] \<and> list_all isDigit sent \<and> recd \<noteq> [] \<and> list_all isDigit recd \<and>
           lost \<noteq> [] \<and> list_all isDigit lost \<and>
           parsePingResult (JStr output) = Inr r \<and>
           (radix_val 10 sent < 2 ^ 53 \<longrightarrow>
              transmitted r = JNum (Fin (of_nat (radix_val 10 sent)))) \<and>
           (radix_val 10 recd < 2 ^ 53 \<longrightarrow>
              received r = JNum (Fin (of_nat (radix_val 10 recd)))) \<and>
           (0 < radix_val 10 sent \<and> radix_val 10 sent < 2 ^ 53 \<and> radix_val 10 lost < 2 ^ 53 \<longrightarrow>
              (\<exists>x y. rnd (of_nat (radix_val 10 lost) / of_nat (radix_val 10 sent)) = Fin x \<and>
                     nearest_double (of_nat (radix_val 10 lost) / of_nat (radix_val 10 sent)) x \<and>
                     rnd (x * 100) = Fin y \<and> nearest_double (x * 100) y \<and>
                     loss r = JNum (Fin (of_int \<lfloor>y + 1 / 2\<rfloor>)))))) \<and>
   parsePingResult
     (JStr (js ''Packets: Sent = 4, Received = 4, Lost = 0 (0% loss)'' @ 10 #
            js ''Minimum = 1ms, Maximum = 3ms, Average = 2ms'')) =
     Inr \<lparr>transmitted = JNum (Fin 4), received = JNum (Fin 4), loss = JNum (Fin 0),
          min_ms = JNum (Fin 1), avg_ms = JNum (Fin 2), max_ms = JNum (Fin 3),
          raw = JStr (js ''Packets: Sent = 4, Received = 4, Lost = 0 (0% loss)'' @ 10 #
                      js ''Minimum = 1ms, Maximum = 3ms, Average = 2ms'')\<rparr>"
proof (intro conjI impI)
  assume a: "find (rx_test True re_win_stat_line) (split_lines output) = Some l \<and>
    rx_exec True re_sent l = Some ms \<and> rx_exec True re_rec l = Some mr \<and>
    rx_exec True re_lost l = Some ml"
  then have a1: "find (rx_test True re_win_stat_line) (split_lines output) = Some l"
    and a2: "rx_exec True re_sent l = Some ms" and a3: "rx_exec True re_rec l = Some mr"
    and a4: "rx_exec True re_lost l = Some ml"
    by simp_all
  from windows_groups_are_integers [OF a2] obtain sent where
    s: "ms = [(1, sent)]" "sent \<noteq> []" "list_all isDigit sent"
       "NumberOfGroup ms 1 = rnd (of_nat (radix_val 10 sent))" by blast
  from windows_groups_are_integers [OF a3] obtain recd where
    r: "mr = [(1, recd)]" "recd \<noteq> []" "list_all isDigit recd"
       "NumberOfGroup mr 1 = rnd (of_nat (radix_val 10 recd))" by blast
  from windows_groups_are_integers [OF a4] obtain lost where
    l: "ml = [(1, lost)]" "lost \<noteq> []" "list_all isDigit lost"
       "NumberOfGroup ml 1 = rnd (of_nat (radix_val 10 lost))" by blast
  define S where "S = radix_val 10 sent"
  define R where "R = radix_val 10 recd"
  define L where "L = radix_val 10 lost"
  have p: "transmitted (parse_lines output) = JNum (rnd (of_nat S)) \<and>
      received (parse_lines output) = JNum (rnd (of_nat R)) \<and>
      loss (parse_lines output) =
        JNum (MathRound (fmul (fdiv (rnd (of_nat L)) (rnd (of_nat S))) (Fin 100)))"
    unfolding parse_lines_def Let_def parse_win_time_keep S_def R_def L_def
      s(4) [symmetric] r(4) [symmetric] l(4) [symmetric]
    by (rule parse_win_stats_found [OF a1 a2 a3 a4])
  have t: "S < 2 ^ 53 \<longrightarrow> transmitted (parse_lines output) = JNum (Fin (of_nat S))"
    using p by (simp add: rnd_nat)
  have v: "R < 2 ^ 53 \<longrightarrow> received (parse_lines output) = JNum (Fin (of_nat R))"
    using p by (simp add: rnd_nat)
  have w: "0 < S \<and> S < 2 ^ 53 \<and> L < 2 ^ 53 \<longrightarrow>
      (\<exists>x y. rnd (of_nat L / of_nat S) = Fin x \<and> nearest_double (of_nat L / of_nat S) x \<and>
             rnd (x * 100) = Fin y \<and> nearest_double (x * 100) y \<and>
             loss (parse_lines output) = JNum (Fin (of_int \<lfloor>y + 1 / 2\<rfloor>)))"
  proof
    assume "0 < S \<and> S < 2 ^ 53 \<and> L < 2 ^ 53"
    then have "0 < S" "S < 2 ^ 53" "L < 2 ^ 53" by simp_all
    from loss_percent_doubles [OF this] p
    show "\<exists>x y. rnd (of_nat L / of_nat S) = Fin x \<and> nearest_double (of_nat L / of_nat S) x \<and>
             rnd (x * 100) = Fin y \<and> nearest_double (x * 100) y \<and>
             loss (parse_lines output) = JNum (Fin (of_int \<lfloor>y + 1 / 2\<rfloor>))"
      by auto
  qed
  have "parsePingResult (JStr output) = Inr (parse_lines output)" by simp
  with s(1-3) r(1-3) l(1-3) t v w
  show "\<exists>r sent recd lost.
           ms = [(1, sent)] \<and> mr = [(1, recd)] \<and> ml = [(1, lost)] \<and>
           sent \<noteq> [] \<and> list_all isDigit sent \<and> recd \<noteq> [] \<and> list_all isDigit recd \<and>
           lost \<noteq> [] \<and> list_all isDigit lost \<and>
           parsePingResult (JStr output) = Inr r \<and>
           (radix_val 10 sent < 2 ^ 53 \<longrightarrow>
              transmitted r = JNum (Fin (of_nat (radix_val 10 sent)))) \<and>
           (radix_val 10 recd < 2 ^ 53 \<longrightarrow>
              received r = JNum (Fin (of_nat (radix_val 10 recd)))) \<and>
           (0 < radix_val 10 sent \<and> radix_val 10 sent < 2 ^ 53 \<and> radix_val 10 lost < 2 ^ 53 \<longrightarrow>
              (\<exists>x y. rnd (of_nat (radix_val 10 lost) / of_nat (radix_val 10 sent)) = Fin x \<and>
                     nearest_double (of_nat (radix_val 10 lost) / of_nat (radix_val 10 sent)) x \<and>
                     rnd (x * 100) = Fin y \<and> nearest_double (x * 100) y \<and>
                     loss r = JNum (Fin (of_int \<lfloor>y + 1 / 2\<rfloor>))))"
    unfolding S_def R_def L_def
    by (intro exI [of _ "parse_lines output"] exI [of _ sent] exI [of _ recd] exI [of _ lost]) simp
next
  show "parsePingResult
     (JStr (js ''Packets: Sent = 4, Received = 4, Lost = 0 (0% loss)'' @ 10 #
            js ''Minimum = 1ms, Maximum = 3ms, Average = 2ms'')) =
     Inr \<lparr>transmitted = JNum (Fin 4), received = JNum (Fin 4), loss = JNum (Fin 0),
          min_ms = JNum (Fin 1), avg_ms = JNum (Fin 2), max_ms = JNum (Fin 3),
          raw = JStr (js ''Packets: Sent = 4, Received = 4, Lost = 0 (0% loss)'' @ 10 #
                      js ''Minimum = 1ms, Maximum = 3ms, Average = 2ms'')\<rparr>"
    using win_parse by (simp add: win_block_def)
qed

theorem parse_windows_dialect_witness:
  "find (rx_test True re_win_stat_line)
     (split_lines (js ''Packets: Sent = 3, Received = 2, Lost = 1 (33% loss)'')) =
     Some (js ''Packets: Sent = 3, Received = 2, Lost = 1 (33% loss)'') \<and>
   rx_exec True re_sent (js ''Packets: Sent = 3, Received = 2, Lost = 1 (33% loss)'') = Some [(1, [51])] \<and>
   rx_exec True re_rec (js ''Packets: Sent = 3, Received = 2, Lost = 1 (33% loss)'') = Some [(1, [50])] \<and>
   rx_exec True re_lost (js ''Packets: Sent = 3, Received = 2, Lost = 1 (33% loss)'') = Some [(1, [49])] \<and>
   radix_val 10 [51] = 3 \<and> radix_val 10 [50] = 2 \<and> radix_val 10 [49] = 1 \<and>
   (\<exists>r. parsePingResult (JStr (js ''Packets: Sent = 3, Received = 2, Lost = 1 (33% loss)'')) = Inr r \<and>
        transmitted r = JNum (Fin 3) \<and> received r = JNum (Fin 2) \<and> loss r = JNum (Fin 33))"
proof -
  let ?l = "js ''Packets: Sent = 3, Received = 2, Lost = 1 (33% loss)''"
  have f: "find (rx_test True re_win_stat_line) (split_lines ?l) = Some ?l"
    by (simp add: split_lines_def re_defs rx_eval)
  have m: "rx_exec True re_sent ?l = Some [(1, [51])]" "rx_exec True re_rec ?l = Some [(1, [50])]"
    "rx_exec True re_lost ?l = Some [(1, [49])]"
    by (simp_all add: re_defs rx_eval)
  have n: "radix_val 10 [51] = 3" "radix_val 10 [50] = 2" "radix_val 10 [49] = 1"
    by (simp_all add: radix_val_def digitVal_def isDigit_def)
  from parse_windows_dialect [of ?l ?l "[(1, [51])]" "[(1, [50])]" "[(1, [49])]"] f m
  obtain r sent recd lost where
    g: "[(1::nat, [51::nat])] = [(1, sent)]" "[(1::nat, [50::nat])] = [(1, recd)]"
       "[(1::nat, [49::nat])] = [(1, lost)]"
    and p: "parsePingResult (JStr ?l) = Inr r"
       "radix_val 10 sent < 2 ^ 53 \<longrightarrow> transmitted r = JNum (Fin (of_nat (radix_val 10 sent)))"
       "radix_val 10 recd < 2 ^ 53 \<longrightarrow> received r = JNum (Fin (of_nat (radix_val 10 recd)))"
       "0 < radix_val 10 sent \<and> radix_val 10 sent < 2 ^ 53 \<and> radix_val 10 lost < 2 ^ 53 \<longrightarrow>
              (\<exists>x y. rnd (of_nat (radix_val 10 lost) / of_nat (radix_val 10 sent)) = Fin x \<and>
                     nearest_double (of_nat (radix_val 10 lost) / of_nat (radix_val 10 sent)) x \<and>
                     rnd (x * 100) = Fin y \<and> nearest_double (x * 100) y \<and>
                     loss r = JNum (Fin (of_int \<lfloor>y + 1 / 2\<rfloor>)))"
    by blast
  from g have v: "sent = [51]" "recd = [50]" "lost = [49]" by simp_all
  from p(2,3) have tr: "transmitted r = JNum (Fin 3)" "received r = JNum (Fin 2)"
    by (simp_all add: v n)
  from p(4) obtain x y where
    x: "rnd (1 / 3) = Fin x" and y: "rnd (x * 100) = Fin y"
    and lo: "loss r = JNum (Fin (of_int \<lfloor>y + 1 / 2\<rfloor>))"
    by (auto simp: v n)
  from x have "x = 6004799503160661 / 2 ^ 54" by (simp only: rnd_1_3 jsnumber.inject)
  with y have "y = 4691249611844266 / 2 ^ 47" by (simp only: rnd_1_3_100 jsnumber.inject)
  moreover have "\<lfloor>(4691249611844266::rat) / 2 ^ 47 + 1 / 2\<rfloor> = 33" by (simp add: floor_eq_iff)
  ultimately have "loss r = JNum (Fin 33)" using lo by (simp only: of_int_numeral)
  with f m n p(1) tr show ?thesis by simp
qed

section \<open>The download stream\<close>

declare stream_chunks.simps [simp del]

lemma stream_chunks_stop: "q \<le> 0 \<Longrightarrow> stream_chunks b bs q = []"
  by (subst stream_chunks.simps) simp

lemma stream_chunks_go:
  "0 < q \<Longrightarrow>
   stream_chunks b bs q =
     take (nat \<lfloor>min 65536 q\<rfloor>) (((b + 1) mod 256) # bs) #
       stream_chunks ((b + 1) mod 256) bs (q - 65536)"
  by (subst stream_chunks.simps) simp

lemma write_chunk_waiting: "waiting (write_chunk s) = waiting s"
  by (simp add: write_chunk_def Let_def)

lemma write_chunk_fin:
  assumes "remaining s = Fin q" and "0 < q" and "chunk s = b # bs"
  shows "write_chunk s =
     s\<lparr>chunk := ((b + 1) mod 256) # bs,
       written := written s @ [take (nat \<lfloor>min 65536 q\<rfloor>) (((b + 1) mod 256) # bs)],
       remaining := rnd (q - min 65536 q)\<rparr>"
  using assms
  by (auto simp: write_chunk_def Let_def MathMin_def CHUNK_def subarray0_def min_def)

lemma write_chunk_ended: "ended (write_chunk s) = ended s"
  by (simp add: write_chunk_def Let_def)

lemma writeMore_done:
  "\<not> fless (Fin 0) (remaining s) \<Longrightarrow> writeMore can s = Some (s\<lparr>ended := True\<rparr>)"
  by (subst writeMore.simps) simp

lemma writeMore_pause:
  "fless (Fin 0) (remaining s) \<Longrightarrow> \<not> can (length (written s)) \<Longrightarrow>
   writeMore can s = Some ((write_chunk s)\<lparr>waiting := True\<rparr>)"
  by (subst writeMore.simps) simp

lemma writeMore_go:
  "fless (Fin 0) (remaining s) \<Longrightarrow> can (length (written s)) \<Longrightarrow>
   writeMore can s = writeMore can (write_chunk s)"
  by (subst writeMore.simps) simp


text \<open>
  One call of \<open>writeMore\<close> returns: either it has ended the response, with every chunk
  written, or it waits for a \<open>drain\<close> event (the transport refused to continue) with at
  least one more chunk written.
\<close>

lemma writeMore_run:
  assumes "representable q" and "q \<le> 2 ^ 26" and "remaining s = Fin q" and "chunk s = b # bs"
  shows "\<exists>s'. writeMore can s = Some s' \<and>
           (ended s' \<and> waiting s' = waiting s \<and> written s' = written s @ stream_chunks b bs q \<or>
            waiting s' \<and> ended s' = ended s \<and> length (written s) < length (written s') \<and>
            dl_inv (written s @ stream_chunks b bs q) s' \<and> (\<exists>k. \<not> can k))"
  using assms
proof (induction b bs q arbitrary: s rule: stream_chunks.induct)
  case (1 b bs q)
  show ?case
  proof (cases "0 < q")
    case False
    then have "\<not> fless (Fin 0) (remaining s)" using "1.prems" by simp
    from writeMore_done [OF this] False show ?thesis
      by (simp add: stream_chunks_stop)
  next
    case True
    let ?b = "(b + 1) mod 256"
    let ?piece = "take (nat \<lfloor>min 65536 q\<rfloor>) (?b # bs)"
    let ?T = "written s @ stream_chunks b bs q"
    have pos: "fless (Fin 0) (remaining s)" using True "1.prems" by simp
    have wc: "write_chunk s =
       s\<lparr>chunk := ?b # bs, written := written s @ [?piece], remaining := rnd (q - min 65536 q)\<rparr>"
      using write_chunk_fin [OF "1.prems"(3) True "1.prems"(4)] .
    have go: "stream_chunks b bs q = ?piece # stream_chunks ?b bs (q - 65536)"
      using stream_chunks_go [OF True, of b bs] .
    have "\<exists>q'. remaining (write_chunk s) = Fin q' \<and> representable q' \<and> q' \<le> 2 ^ 26 \<and>
             stream_chunks ?b bs q' = stream_chunks ?b bs (q - 65536) \<and>
             (q' = 0 \<or> q' = q - 65536)"
    proof (cases "q \<le> 65536")
      case le: True
      have "remaining (write_chunk s) = Fin 0" using le by (simp add: wc min_def rnd_zero)
      moreover have "representable 0" by (simp add: representable_def)
      moreover have "stream_chunks ?b bs 0 = stream_chunks ?b bs (q - 65536)"
        using le by (simp add: stream_chunks_stop)
      ultimately show ?thesis by (intro exI [of _ 0]) simp
    next
      case False
      then have q: "65536 < q" by simp
      have rep: "representable (q - 65536)"
        using representable_sub_chunk [OF "1.prems"(1) q "1.prems"(2)] .
      have "remaining (write_chunk s) = Fin (q - 65536)"
        using q by (simp add: wc min_def rnd_exact [OF rep])
      with rep "1.prems"(2) show ?thesis by (intro exI [of _ "q - 65536"]) simp
    qed
    then obtain q' where q': "remaining (write_chunk s) = Fin q'" "representable q'" "q' \<le> 2 ^ 26"
      "stream_chunks ?b bs q' = stream_chunks ?b bs (q - 65536)" and qc: "q' = 0 \<or> q' = q - 65536"
      by blast
    have T: "written (write_chunk s) @ stream_chunks ?b bs q' = ?T"
      using go q'(4) by (simp add: wc)
    have ch: "chunk (write_chunk s) = ?b # bs" by (simp add: wc)
    show ?thesis
    proof (cases "can (length (written s))")
      case False
      have w: "writeMore can s = Some ((write_chunk s)\<lparr>waiting := True\<rparr>)"
        using pos False by (simp add: writeMore_pause)
      have "dl_inv ?T ((write_chunk s)\<lparr>waiting := True\<rparr>)"
        unfolding dl_inv_def using q' T ch by auto
      moreover have "length (written s) < length (written ((write_chunk s)\<lparr>waiting := True\<rparr>))"
        by (simp add: wc)
      moreover have "ended ((write_chunk s)\<lparr>waiting := True\<rparr>) = ended s"
        by (simp add: write_chunk_ended)
      ultimately show ?thesis using w False by auto
    next
      case c: True
      have step: "writeMore can s = writeMore can (write_chunk s)"
        using pos c by (simp add: writeMore_go)
      have "\<exists>s'. writeMore can (write_chunk s) = Some s' \<and>
           (ended s' \<and> waiting s' = waiting (write_chunk s) \<and>
              written s' = written (write_chunk s) @ stream_chunks ?b bs q' \<or>
            waiting s' \<and> ended s' = ended (write_chunk s) \<and>
              length (written (write_chunk s)) < length (written s') \<and>
              dl_inv (written (write_chunk s) @ stream_chunks ?b bs q') s' \<and> (\<exists>k. \<not> can k))"
      proof (cases "q' = 0")
        case z: True
        have "\<not> fless (Fin 0) (remaining (write_chunk s))" using q'(1) z by simp
        from writeMore_done [OF this] z show ?thesis
          by (simp add: stream_chunks_stop)
      next
        case False
        with qc have e: "q' = q - 65536" by simp
        from "1.IH" [OF True q'(2) [unfolded e] q'(3) [unfolded e] q'(1) [unfolded e] ch]
        show ?thesis unfolding e .
      qed
      then obtain s' where s': "writeMore can (write_chunk s) = Some s'"
        and d: "ended s' \<and> waiting s' = waiting (write_chunk s) \<and>
              written s' = written (write_chunk s) @ stream_chunks ?b bs q' \<or>
            waiting s' \<and> ended s' = ended (write_chunk s) \<and>
              length (written (write_chunk s)) < length (written s') \<and>
              dl_inv (written (write_chunk s) @ stream_chunks ?b bs q') s' \<and> (\<exists>k. \<not> can k)"
        by blast
      have l: "length (written s) < length (written (write_chunk s))" by (simp add: wc)
      from d l show ?thesis
        unfolding step s' T write_chunk_waiting write_chunk_ended by auto
    qed
  qed
qed

lemma dl_mid_prefix:
  assumes "dl_mid T s"
  shows "written s = take (length (written s)) T \<and> length (written s) \<le> length T"
  using assms by (auto simp: dl_mid_def dl_inv_def)

lemma on_drain_run:
  assumes "dl_mid T s"
  shows "\<exists>s'. on_drain can s = Some s' \<and> dl_mid T s' \<and> (ended s \<longrightarrow> s' = s) \<and>
              (ended s' \<or> length (written s) < length (written s'))"
proof (cases "ended s")
  case True
  with assms have "\<not> waiting s" by (auto simp: dl_mid_def)
  with True assms show ?thesis by (simp add: on_drain_def)
next
  case False
  with assms have w: "waiting s" and i: "dl_inv T s" by (auto simp: dl_mid_def)
  from i obtain q b bs where q: "remaining s = Fin q" "representable q" "q \<le> 2 ^ 26"
    "chunk s = b # bs" and T: "written s @ stream_chunks b bs q = T"
    by (auto simp: dl_inv_def)
  let ?s = "s\<lparr>waiting := False\<rparr>"
  from writeMore_run [of q ?s b bs can] q T
  obtain s' where s': "writeMore can ?s = Some s'"
    and d: "ended s' \<and> waiting s' = False \<and> written s' = T \<or>
            waiting s' \<and> ended s' = ended s \<and> length (written s) < length (written s') \<and>
            dl_inv T s'"
    by auto
  have "on_drain can s = Some s'" using w s' by (simp add: on_drain_def)
  with d False show ?thesis by (auto simp: dl_mid_def)
qed

lemma after_drains_run:
  assumes "dl_mid T s"
  shows "\<exists>s'. after_drains can n s = Some s' \<and> dl_mid T s' \<and> (ended s \<longrightarrow> s' = s) \<and>
              (ended s' \<or> length (written s) + n \<le> length (written s'))"
  using assms
proof (induction n arbitrary: s)
  case 0
  then show ?case by simp
next
  case (Suc n)
  from on_drain_run [OF Suc.prems, of can] obtain s1 where
    s1: "on_drain can s = Some s1" "dl_mid T s1" "ended s \<longrightarrow> s1 = s"
        "ended s1 \<or> length (written s) < length (written s1)"
    by blast
  from Suc.IH [OF s1(2)] obtain s' where
    s': "after_drains can n s1 = Some s'" "dl_mid T s'" "ended s1 \<longrightarrow> s' = s1"
        "ended s' \<or> length (written s1) + n \<le> length (written s')"
    by blast
  have "after_drains can (Suc n) s = Some s'" using s1(1) s'(1) by simp
  moreover have "ended s \<longrightarrow> s' = s" using s1(3) s'(3) by auto
  moreover have "ended s' \<or> length (written s) + Suc n \<le> length (written s')"
    using s1(4) s'(3,4) by auto
  ultimately show ?case using s'(2) by blast
qed

lemma succ_byte_neq: "(b + 1) mod 256 \<noteq> (b::nat) mod 256"
proof
  assume "(b + 1) mod 256 = b mod 256"
  then have "(b mod 256 + 1) mod 256 = b mod 256" by (simp add: mod_simps)
  moreover have "b mod 256 < 256" by simp
  ultimately show False by (cases "b mod 256 = 255") (simp_all add: mod_if)
qed

lemma stream_chunks_distinct_adj:
  "length bs = 65535 \<Longrightarrow> distinct_adj (stream_chunks b bs q)"
proof (induction b bs q rule: stream_chunks.induct)
  case (1 b bs q)
  show ?case
  proof (cases "0 < q")
    case False
    then show ?thesis by (simp add: stream_chunks_stop)
  next
    case True
    let ?b = "(b + 1) mod 256"
    let ?c0 = "take (nat \<lfloor>min 65536 q\<rfloor>) (?b # bs)"
    have go: "stream_chunks b bs q = ?c0 # stream_chunks ?b bs (q - 65536)"
      using stream_chunks_go [OF True] .
    have IH: "distinct_adj (stream_chunks ?b bs (q - 65536))"
      using "1.IH" [OF True "1.prems"] .
    show ?thesis
    proof (cases "0 < q - 65536")
      case False
      then show ?thesis unfolding go by (simp add: stream_chunks_stop)
    next
      case gt: True
      let ?b' = "(?b + 1) mod 256"
      let ?c1 = "take (nat \<lfloor>min 65536 (q - 65536)\<rfloor>) (?b' # bs)"
      have go': "stream_chunks ?b bs (q - 65536) = ?c1 # stream_chunks ?b' bs (q - 65536 - 65536)"
        using stream_chunks_go [OF gt] .
      have "nat \<lfloor>min 65536 q\<rfloor> = 65536" using gt by (simp add: min_def)
      then have c0: "?c0 = ?b # bs" using "1.prems" by simp
      have "?b' \<noteq> ?b" using succ_byte_neq [of "b + 1"] by (simp add: mod_simps)
      then have "?c1 \<noteq> ?b # bs"
        by (cases "nat \<lfloor>min 65536 (q - 65536)\<rfloor>") auto
      then have "?c0 \<noteq> ?c1" using c0 by simp
      with IH show ?thesis unfolding go go' by simp
    qed
  qed
qed

lemma stream_chunks_length:
  "0 \<le> q \<Longrightarrow> length bs = 65535 \<Longrightarrow> length (concat (stream_chunks b bs q)) = nat \<lfloor>q\<rfloor>"
proof (induction b bs q rule: stream_chunks.induct)
  case (1 b bs q)
  show ?case
  proof (cases "0 < q")
    case False
    with "1.prems" have "q = 0" by simp
    then show ?thesis by (simp add: stream_chunks_stop)
  next
    case True
    let ?b = "(b + 1) mod 256"
    let ?c0 = "take (nat \<lfloor>min 65536 q\<rfloor>) (?b # bs)"
    have go: "stream_chunks b bs q = ?c0 # stream_chunks ?b bs (q - 65536)"
      using stream_chunks_go [OF True] .
    have "min 65536 q \<le> 65536" by simp
    then have "\<lfloor>min 65536 q\<rfloor> \<le> \<lfloor>65536::rat\<rfloor>" by (rule floor_mono)
    also have "\<lfloor>65536::rat\<rfloor> = 65536" by (rule floor_numeral)
    finally have "nat \<lfloor>min 65536 q\<rfloor> \<le> 65536" by linarith
    then have l0: "length ?c0 = nat \<lfloor>min 65536 q\<rfloor>"
      using "1.prems"(2) by (simp only: length_take length_Cons)
    show ?thesis
    proof (cases "q \<le> 65536")
      case le: True
      then have "stream_chunks ?b bs (q - 65536) = []" by (intro stream_chunks_stop) simp
      with le l0 show ?thesis unfolding go by (simp add: min_def)
    next
      case False
      then have gt: "65536 < q" by simp
      then have "length (concat (stream_chunks ?b bs (q - 65536))) = nat \<lfloor>q - 65536\<rfloor>"
        using "1.IH" [OF True _ "1.prems"(2)] by simp
      moreover have "\<lfloor>q - 65536\<rfloor> = \<lfloor>q\<rfloor> - 65536" using floor_diff_of_int [of q 65536] by simp
      ultimately have rest: "length (concat (stream_chunks ?b bs (q - 65536))) = nat (\<lfloor>q\<rfloor> - 65536)"
        by (simp only:)
      have f: "65536 \<le> \<lfloor>q\<rfloor>" using gt by (simp add: le_floor_iff)
      have "min 65536 q = 65536" using gt by (simp add: min_def)
      then have c0: "length ?c0 = 65536" using l0 by (simp only: floor_numeral)
      have "length (concat (stream_chunks b bs q)) = 65536 + nat (\<lfloor>q\<rfloor> - 65536)"
        unfolding go using c0 rest by (simp only: concat.simps length_append)
      also have "\<dots> = nat \<lfloor>q\<rfloor>" using f by linarith
      finally show ?thesis .
    qed
  qed
qed

lemma init_chunk_form: "init_chunk = hd init_chunk # tl init_chunk \<and> length (tl init_chunk) = 65535"
proof -
  have "length init_chunk = 65536" by (simp add: init_chunk_def CHUNK_def)
  then have "init_chunk \<noteq> []" "length (tl init_chunk) = 65535" by auto
  then show ?thesis by simp
qed

lemma StringToNumber_representable: "StringToNumber s = Fin q \<Longrightarrow> representable q"
  by (auto simp: StringToNumber_def Let_def representable_def
      split: option.splits if_splits prod.splits dest: rnd_representable)

lemma stream_chunks_count:
  "q \<le> 65536 * of_nat m \<Longrightarrow> length (stream_chunks b bs q) \<le> m"
proof (induction b bs q arbitrary: m rule: stream_chunks.induct)
  case (1 b bs q)
  show ?case
  proof (cases "0 < q")
    case False
    then show ?thesis by (simp add: stream_chunks_stop)
  next
    case True
    with "1.prems" have "m \<noteq> 0" by (cases m) auto
    then obtain m' where m: "m = Suc m'" by (cases m) auto
    have "q - 65536 \<le> 65536 * of_nat m'" using "1.prems" by (simp add: m algebra_simps)
    from "1.IH" [OF True this] show ?thesis
      by (simp add: stream_chunks_go [OF True] m)
  qed
qed

lemma distinct_adj_take: "distinct_adj xs \<Longrightarrow> distinct_adj (take k xs)"
proof -
  assume "distinct_adj xs"
  then have "distinct_adj (take k xs @ drop k xs)" by simp
  then show ?thesis by (simp only: distinct_adj_append_iff)
qed

lemma sizeParam_representable: "sizeParam req = Inr (Fin q) \<Longrightarrow> representable q"
proof -
  have "representable (of_int 26214400)" by (rule representable_int) simp
  then have "representable 26214400" by simp
  then show "sizeParam req = Inr (Fin q) \<Longrightarrow> representable q"
    by (auto simp: sizeParam_def DEFAULT_SIZE_def split: option.splits if_splits
        dest: StringToNumber_representable)
qed

lemma clamp_size_cases:
  "clamp_size sp = NaN \<and> sp = NaN \<or>
   (\<exists>q. clamp_size sp = Fin q \<and> 1024 \<le> q \<and> q \<le> 52428800 \<and>
        (sp = Fin q \<or> q = 1024 \<or> q = 52428800))"
  by (cases sp) (auto simp: clamp_size_def MathMax_def MathMin_def MAX_SIZE_def)

lemma clamp_size_representable:
  assumes "sizeParam req = Inr sp" and "clamp_size sp = Fin q"
  shows "representable q \<and> 1024 \<le> q \<and> q \<le> 52428800"
proof -
  have a: "representable 1024" using representable_int [of 1024] by simp
  have b: "representable 52428800" using representable_int [of 52428800] by simp
  from clamp_size_cases [of sp] assms a b sizeParam_representable [of req q]
  show ?thesis by auto
qed

lemma download_chunks_props:
  assumes "sizeParam req = Inr sp"
  shows "distinct_adj (download_chunks (clamp_size sp)) \<and>
         length (download_chunks (clamp_size sp)) \<le> 800"
proof (cases "clamp_size sp")
  case (Fin q)
  from clamp_size_representable [OF assms Fin] have "q \<le> 65536 * of_nat 800" by simp
  from stream_chunks_count [OF this] init_chunk_form show ?thesis
    by (simp add: Fin download_chunks_def stream_chunks_distinct_adj)
qed (simp_all add: download_chunks_def)

text \<open>
  The response of the download handler after any number of \<open>drain\<close> events, on any
  transport: the headers are set, the chunks written so far are the first ones of
  \<open>download_chunks\<close> at the clamped size, all of them once the response has ended;
  the response has ended when the transport never refused to continue, and when it has
  emitted as many \<open>drain\<close> events as there are chunks.
\<close>

lemma download_handler_run:
  assumes "sizeParam req = Inr sp"
  shows "\<exists>r. download_handler can n req = Some (Inr r) \<and>
           content_type r = ''application/octet-stream'' \<and>
           content_length r = clamp_size sp \<and> cache_control r = ''no-store'' \<and>
           chunks r = take (length (chunks r)) (download_chunks (clamp_size sp)) \<and>
           (stream_ended r \<longrightarrow> chunks r = download_chunks (clamp_size sp)) \<and>
           (length (download_chunks (clamp_size sp)) \<le> n \<longrightarrow> stream_ended r) \<and>
           ((\<forall>k. can k) \<longrightarrow> stream_ended r) \<and>
           (download_chunks (clamp_size sp) \<noteq> [] \<longrightarrow> chunks r \<noteq> [])"
proof -
  define sz where "sz = clamp_size sp"
  define T where "T = download_chunks sz"
  define s0 where "s0 = \<lparr>remaining = sz, chunk = init_chunk, written = [], ended = False,
                waiting = False\<rparr>"
  have "\<exists>s1. writeMore can s0 = Some s1 \<and> dl_mid T s1 \<and> (ended s1 \<or> 1 \<le> length (written s1)) \<and>
           (waiting s1 \<longrightarrow> (\<exists>k. \<not> can k))"
  proof (cases "sz = NaN")
    case True
    then have "writeMore can s0 = Some (s0\<lparr>ended := True\<rparr>)"
      by (intro writeMore_done) (simp add: s0_def)
    then show ?thesis using True by (simp add: s0_def T_def download_chunks_def dl_mid_def)
  next
    case False
    with clamp_size_cases [of sp] obtain q where Fin: "sz = Fin q"
      by (auto simp: sz_def)
    then have q: "representable q" "1024 \<le> q" "q \<le> 52428800"
      using clamp_size_representable [OF assms, of q] by (simp_all add: sz_def)
    have c: "chunk s0 = hd init_chunk # tl init_chunk" using init_chunk_form by (simp add: s0_def)
    have TT: "written s0 @ stream_chunks (hd init_chunk) (tl init_chunk) q = T"
      by (simp add: s0_def T_def Fin download_chunks_def)
    have "q \<le> 2 ^ 26" using q(3) by simp
    from writeMore_run [OF q(1) this _ c, of can] TT
    show ?thesis by (auto simp: s0_def Fin dl_mid_def Suc_le_eq)
  qed
  then obtain s1 where s1: "writeMore can s0 = Some s1" "dl_mid T s1"
    "ended s1 \<or> 1 \<le> length (written s1)" "waiting s1 \<longrightarrow> (\<exists>k. \<not> can k)" by blast
  from after_drains_run [OF s1(2), of can n] obtain s' where
    s': "after_drains can n s1 = Some s'" "dl_mid T s'" "ended s1 \<longrightarrow> s' = s1"
        "ended s' \<or> length (written s1) + n \<le> length (written s')"
    by blast
  let ?r = "\<lparr>content_type = ''application/octet-stream'', content_length = sz,
             cache_control = ''no-store'', chunks = written s', stream_ended = ended s'\<rparr>"
  have h: "download_handler can n req = Some (Inr ?r)"
    by (simp add: download_handler_def assms Let_def sz_def [symmetric] s0_def [symmetric] s1(1) s'(1))
  from dl_mid_prefix [OF s'(2)] have p: "written s' = take (length (written s')) T"
    and l: "length (written s') \<le> length T" by simp_all
  from dl_mid_prefix [OF s1(2)] have l1: "length (written s1) \<le> length T" by simp
  have e: "ended s' \<longrightarrow> written s' = T" using s'(2) by (auto simp: dl_mid_def)
  have m: "length T \<le> n \<longrightarrow> ended s'"
  proof
    assume n: "length T \<le> n"
    show "ended s'"
    proof (rule ccontr)
      assume ne: "\<not> ended s'"
      with s'(3) have "\<not> ended s1" by auto
      with s1(3) have "1 \<le> length (written s1)" by simp
      with s'(4) ne l n show False by simp
    qed
  qed
  have a: "(\<forall>k. can k) \<longrightarrow> ended s'"
  proof
    assume "\<forall>k. can k"
    with s1(4) have "\<not> waiting s1" by auto
    with s1(2) have "ended s1" by (auto simp: dl_mid_def)
    with s'(3) show "ended s'" by simp
  qed
  have ne: "T \<noteq> [] \<longrightarrow> written s' \<noteq> []"
  proof
    assume t: "T \<noteq> []"
    show "written s' \<noteq> []"
    proof (cases "ended s'")
      case True
      with e t show ?thesis by simp
    next
      case False
      with s'(3) have "\<not> ended s1" by auto
      with s1(3) have "1 \<le> length (written s1)" by simp
      with s'(4) False show ?thesis by auto
    qed
  qed
  from h p e m a ne show ?thesis
    unfolding T_def by (intro exI [of _ ?r]) (simp add: sz_def)
qed

lemma size_abc: "StringToNumber (js ''abc'') = NaN"
  by (simp add: num_eval)

lemma size_10M: "StringToNumber (js ''10000000'') = Fin 10000000"
  using rnd_nat [of 10000000] by (simp add: num_eval)

lemma size_huge: "StringToNumber (js ''999999999'') = Fin 999999999"
  using rnd_nat [of 999999999] by (simp add: num_eval)

lemma size_50M: "StringToNumber (js ''52428800'') = Fin 52428800"
  using rnd_nat [of 52428800] by (simp add: num_eval)

lemma representable_1500_5: "representable (3001 / 2)"
proof -
  have "ilog2 \<bar>3001 / 2\<bar> < 11" by (intro ilog2_less) simp_all
  then have "max (ilog2 \<bar>3001 / 2\<bar>) (- 1022) - 52 \<le> - 1" by simp
  moreover have "(3001::rat) / 2 = of_int 3001 * 2 powi (- 1)" by (simp add: power_int_minus)
  moreover have "\<bar>(3001::rat) / 2\<bar> < 2 powi 1024"
  proof -
    have "\<bar>(3001::rat) / 2\<bar> < 2 powi 11" by simp
    also have "(2::rat) powi 11 < 2 powi 1024" by (intro power_int_strict_increasing) simp_all
    finally show ?thesis .
  qed
  ultimately show ?thesis by (intro representable_mult [of _ 3001 "- 1"])
qed

lemma size_fraction: "StringToNumber (js ''1500.5'') = Fin (3001 / 2)"
  using rnd_exact [OF representable_1500_5] by (simp add: num_eval)

lemma download_examples:
  "sizeParam \<lparr>query_host = None, query_size = Some (QStr (js ''999999999'')), body = BodyUndefined\<rparr> =
     Inr (Fin 999999999)"
  "sizeParam \<lparr>query_host = None, query_size = Some (QStr (js ''52428800'')), body = BodyUndefined\<rparr> =
     Inr (Fin 52428800)"
  "sizeParam \<lparr>query_host = None, query_size = Some (QStr (js ''10000000'')), body = BodyUndefined\<rparr> =
     Inr (Fin 10000000)"
  "sizeParam \<lparr>query_host = None, query_size = None, body = BodyUndefined\<rparr> = Inr (Fin 26214400)"
  "sizeParam \<lparr>query_host = None, query_size = Some (QStr (js ''abc'')), body = BodyUndefined\<rparr> =
     Inr NaN"
  "sizeParam \<lparr>query_host = None, query_size = Some (QStr (js ''1500.5'')), body = BodyUndefined\<rparr> =
     Inr (Fin (3001 / 2))"
  using size_huge size_50M size_10M size_abc size_fraction
  by (simp_all add: sizeParam_def DEFAULT_SIZE_def js_def)

lemma clamp_examples:
  "clamp_size (Fin 999999999) = Fin 52428800"
  "clamp_size (Fin 52428800) = Fin 52428800"
  "clamp_size (Fin 10000000) = Fin 10000000"
  "clamp_size (Fin 26214400) = Fin 26214400"
  "clamp_size NaN = NaN"
  "clamp_size (Fin (3001 / 2)) = Fin (3001 / 2)"
  by (simp_all add: clamp_size_def MathMin_def MathMax_def MAX_SIZE_def)

text \<open>
  For a size that \<open>Number\<close> turns into a Number in range the handler does clamp: the
  header is the clamped size \<open>q\<close>, and a response that has ended has \<open>\<lfloor>q\<rfloor>\<close> bytes
  (it has ended after at most 800 \<open>drain\<close> events, or at once on a transport that never
  pauses).
\<close>

lemma download_clamped:
  assumes "sizeParam req = Inr sp" and "clamp_size sp = Fin q"
  shows "1024 \<le> q \<and> q \<le> 52428800 \<and>
         (\<exists>r. download_handler can n req = Some (Inr r) \<and> content_length r = Fin q \<and>
              (stream_ended r \<longrightarrow> length (concat (chunks r)) = nat \<lfloor>q\<rfloor>) \<and>
              (800 \<le> n \<or> (\<forall>k. can k) \<longrightarrow> stream_ended r))"
proof -
  from clamp_size_representable [OF assms] have q: "1024 \<le> q" "q \<le> 52428800" by simp_all
  have len: "length (concat (download_chunks (Fin q))) = nat \<lfloor>q\<rfloor>"
    using q init_chunk_form by (simp add: download_chunks_def stream_chunks_length)
  from download_chunks_props [OF assms(1)] have c: "length (download_chunks (Fin q)) \<le> 800"
    by (simp add: assms(2))
  from download_handler_run [OF assms(1), of can n] obtain r where
    r: "download_handler can n req = Some (Inr r)" "content_length r = Fin q"
       "stream_ended r \<longrightarrow> chunks r = download_chunks (Fin q)"
       "length (download_chunks (Fin q)) \<le> n \<longrightarrow> stream_ended r"
       "(\<forall>k. can k) \<longrightarrow> stream_ended r"
    unfolding assms(2) by blast
  have "800 \<le> n \<or> (\<forall>k. can k) \<longrightarrow> stream_ended r" using r(4,5) c by auto
  with r(1,2,3) len q show ?thesis by auto
qed

text \<open>
  Two more runs of the handler. An object with a key \<open>toString\<close> as size makes
  \<open>Number\<close> throw, and no response is begun. On a transport that refuses to continue
  after the first chunk and emits no \<open>drain\<close> event, the response has one chunk and has
  not ended.
\<close>

lemma download_size_object_throws:
  "download_handler can n
     \<lparr>query_host = None, query_size = Some (QObj [(js ''toString'', QStr (js ''1''))]),
      body = BodyUndefined\<rparr> = Some (Inl TypeError)"
  by (simp add: download_handler_def sizeParam_def)

lemma download_waits_for_drain:
  assumes "sizeParam req = Inr sp" and "clamp_size sp = Fin q" and "\<not> can 0"
  shows "\<exists>r. download_handler can 0 req = Some (Inr r) \<and> \<not> stream_ended r \<and>
             length (chunks r) = 1"
proof -
  let ?s0 = "\<lparr>remaining = Fin q, chunk = init_chunk, written = [], ended = False,
              waiting = False\<rparr>"
  from clamp_size_representable [OF assms(1,2)] have "0 < q" by simp
  then have "fless (Fin 0) (remaining ?s0)" by simp
  moreover have "\<not> can (length (written ?s0))" using assms(3) by simp
  ultimately have "writeMore can ?s0 = Some ((write_chunk ?s0)\<lparr>waiting := True\<rparr>)"
    by (rule writeMore_pause)
  moreover have "length (written (write_chunk ?s0)) = 1" "\<not> ended (write_chunk ?s0)"
    by (simp_all add: write_chunk_def Let_def)
  ultimately show ?thesis
    by (simp add: download_handler_def assms(1,2) Let_def)
qed

text \<open>
  C6 (the code at the failing input): for \<open>size=abc\<close> the size is NaN, which
  \<open>Math.min\<close> and \<open>Math.max\<close> hand through: the header \<open>Content-Length\<close> is
  \<open>String(NaN)\<close> and the stream ends with no byte written. For \<open>size=1500.5\<close> the
  header is \<open>1500.5\<close> and the body has 1500 bytes. Both hold on every transport and
  after any number of \<open>drain\<close> events. (For every size that is a Number in range the
  handler does clamp, see \<open>download_clamped\<close>.)
\<close>

theorem download_size_not_a_number:
  "download_handler can n \<lparr>query_host = None, query_size = Some (QStr (js ''abc'')), body = BodyUndefined\<rparr> =
     Some (Inr \<lparr>content_type = ''application/octet-stream'', content_length = NaN,
                cache_control = ''no-store'', chunks = [], stream_ended = True\<rparr>) \<and>
   (\<exists>r. download_handler can n
           \<lparr>query_host = None, query_size = Some (QStr (js ''1500.5'')), body = BodyUndefined\<rparr> =
           Some (Inr r) \<and>
        content_length r = Fin (3001 / 2) \<and> length (concat (chunks r)) = 1500)"
proof -
  let ?abc = "\<lparr>query_host = None, query_size = Some (QStr (js ''abc'')), body = BodyUndefined\<rparr>"
  let ?frac = "\<lparr>query_host = None, query_size = Some (QStr (js ''1500.5'')), body = BodyUndefined\<rparr>"
  from download_handler_run [OF download_examples(5), of can n] obtain r where
    r: "download_handler can n ?abc = Some (Inr r)"
       "content_type r = ''application/octet-stream''" "content_length r = NaN"
       "cache_control r = ''no-store''" "chunks r = []" "stream_ended r"
    by (auto simp: clamp_examples download_chunks_def)
  have "r = \<lparr>content_type = ''application/octet-stream'', content_length = NaN,
                cache_control = ''no-store'', chunks = [], stream_ended = True\<rparr>"
    using r(2-6) by (cases r) simp
  with r(1) have a: "download_handler can n ?abc =
     Some (Inr \<lparr>content_type = ''application/octet-stream'', content_length = NaN,
                cache_control = ''no-store'', chunks = [], stream_ended = True\<rparr>)"
    by simp
  have "\<lfloor>(3001::rat) / 2\<rfloor> = 1500" by (simp add: floor_eq_iff)
  then have f: "nat \<lfloor>(3001::rat) / 2\<rfloor> = 1500" by (simp only: nat_numeral)
  let ?b = "(hd init_chunk + 1) mod 256"
  let ?piece = "take (nat \<lfloor>min 65536 ((3001::rat) / 2)\<rfloor>) (?b # tl init_chunk)"
  have T: "download_chunks (Fin (3001 / 2)) = [?piece]"
    unfolding download_chunks_def
    by (simp add: stream_chunks_go stream_chunks_stop)
  have len: "length (concat (download_chunks (Fin (3001 / 2)))) = nat \<lfloor>(3001::rat) / 2\<rfloor>"
    using init_chunk_form by (simp add: download_chunks_def stream_chunks_length)
  from download_handler_run [OF download_examples(6), of can n] obtain r' where
    r': "download_handler can n ?frac = Some (Inr r')" "content_length r' = Fin (3001 / 2)"
        "chunks r' = take (length (chunks r')) (download_chunks (Fin (3001 / 2)))"
        "chunks r' \<noteq> []"
    by (auto simp: clamp_examples T)
  from r'(3,4) have "chunks r' = download_chunks (Fin (3001 / 2))"
    unfolding T by (cases "length (chunks r')") auto
  with len f have "length (concat (chunks r')) = 1500" by (simp only:)
  with a r'(1,2) show ?thesis by blast
qed

text \<open>
  C7 (as the claim states it): two runs of the handler with the same clamped size produce
  different streams. This fails: two requests for \<open>size=10000000\<close>, one on a transport
  that never pauses and one on a transport that pauses after every chunk and has emitted
  800 \<open>drain\<close> events, have the same response, byte for byte, of 10,000,000 bytes.
\<close>

theorem download_repeats_stream:
  "download_handler (\<lambda>k. True) 0
     \<lparr>query_host = None, query_size = Some (QStr (js ''10000000'')), body = BodyUndefined\<rparr> =
   download_handler (\<lambda>k. False) 800
     \<lparr>query_host = None, query_size = Some (QStr (js ''10000000'')), body = BodyUndefined\<rparr> \<and>
   (\<exists>r. download_handler (\<lambda>k. True) 0
           \<lparr>query_host = None, query_size = Some (QStr (js ''10000000'')), body = BodyUndefined\<rparr> =
           Some (Inr r) \<and>
        content_length r = Fin 10000000 \<and> stream_ended r \<and>
        length (concat (chunks r)) = 10000000)"
proof -
  let ?R = "\<lparr>query_host = None, query_size = Some (QStr (js ''10000000'')), body = BodyUndefined\<rparr>"
  note s = download_examples(3)
  note c = clamp_examples(3)
  from download_chunks_props [OF s] have c800: "length (download_chunks (Fin 10000000)) \<le> 800"
    by (simp add: c)
  have len: "length (concat (download_chunks (Fin 10000000))) = nat \<lfloor>10000000::rat\<rfloor>"
    using init_chunk_form by (simp add: download_chunks_def stream_chunks_length)
  from download_handler_run [OF s, of "\<lambda>k. True" 0] obtain r where
    r: "download_handler (\<lambda>k. True) 0 ?R = Some (Inr r)"
       "content_type r = ''application/octet-stream''" "content_length r = Fin 10000000"
       "cache_control r = ''no-store''" "chunks r = download_chunks (Fin 10000000)"
       "stream_ended r"
    unfolding c by auto
  from download_handler_run [OF s, of "\<lambda>k. False" 800] c800 obtain r' where
    r': "download_handler (\<lambda>k. False) 800 ?R = Some (Inr r')"
       "content_type r' = ''application/octet-stream''" "content_length r' = Fin 10000000"
       "cache_control r' = ''no-store''" "chunks r' = download_chunks (Fin 10000000)"
       "stream_ended r'"
    unfolding c by auto
  have "r = r'" using r(2-6) r'(2-6) by (cases r, cases r') simp
  moreover have "length (concat (chunks r)) = 10000000" using len r(5) by simp
  ultimately show ?thesis using r(1,3,6) r'(1) by auto
qed

text \<open>
  C7 (amended): two runs of the download handler with equal clamped size produce
  byte-identical streams. On any two transports and after any numbers of \<open>drain\<close>
  events, the chunks written by one run are the first chunks written by the other, and
  when both responses have ended they consist of the same chunks. Inside one response no
  chunk equals the chunk written just before it: the first byte of the pattern buffer is
  incremented modulo 256 before each write. (The runs are those in which \<open>Number\<close>
  does not throw.)
\<close>

theorem download_stream_by_size:
  "sizeParam req = Inr sp \<and> sizeParam req' = Inr sp' \<and> clamp_size sp = clamp_size sp' \<longrightarrow>
     (\<exists>r r'. download_handler can n req = Some (Inr r) \<and>
             download_handler can' n' req' = Some (Inr r') \<and>
             distinct_adj (chunks r) \<and> distinct_adj (chunks r') \<and>
             (chunks r = take (length (chunks r)) (chunks r') \<or>
              chunks r' = take (length (chunks r')) (chunks r)) \<and>
             (stream_ended r \<and> stream_ended r' \<longrightarrow> chunks r = chunks r'))"
proof
  assume a: "sizeParam req = Inr sp \<and> sizeParam req' = Inr sp' \<and> clamp_size sp = clamp_size sp'"
  then have s: "sizeParam req = Inr sp" and s': "sizeParam req' = Inr sp'"
    and e: "clamp_size sp' = clamp_size sp" by simp_all
  define T where "T = download_chunks (clamp_size sp)"
  from download_chunks_props [OF s] have d: "distinct_adj T" by (simp add: T_def)
  from download_handler_run [OF s, of can n] obtain r where
    r: "download_handler can n req = Some (Inr r)" "chunks r = take (length (chunks r)) T"
       "stream_ended r \<longrightarrow> chunks r = T"
    unfolding T_def by blast
  from download_handler_run [OF s', of can' n'] obtain r' where
    r': "download_handler can' n' req' = Some (Inr r')" "chunks r' = take (length (chunks r')) T"
       "stream_ended r' \<longrightarrow> chunks r' = T"
    unfolding T_def e by blast
  have d1: "distinct_adj (chunks r)" by (subst r(2)) (rule distinct_adj_take [OF d])
  have d2: "distinct_adj (chunks r')" by (subst r'(2)) (rule distinct_adj_take [OF d])
  have p: "chunks r = take (length (chunks r)) (chunks r') \<or>
           chunks r' = take (length (chunks r')) (chunks r)"
  proof (cases "length (chunks r) \<le> length (chunks r')")
    case True
    have "take (length (chunks r)) (chunks r') = take (length (chunks r)) (take (length (chunks r')) T)"
      using r'(2) by simp
    also have "\<dots> = take (length (chunks r)) T" using True by (simp add: min_def)
    finally show ?thesis using r(2) by simp
  next
    case False
    have "take (length (chunks r')) (chunks r) = take (length (chunks r')) (take (length (chunks r)) T)"
      using r(2) by simp
    also have "\<dots> = take (length (chunks r')) T" using False by (simp add: min_def)
    finally show ?thesis using r'(2) by simp
  qed
  from r(1) r'(1) d1 d2 p r(3) r'(3)
  show "\<exists>r r'. download_handler can n req = Some (Inr r) \<and>
             download_handler can' n' req' = Some (Inr r') \<and>
             distinct_adj (chunks r) \<and> distinct_adj (chunks r') \<and>
             (chunks r = take (length (chunks r)) (chunks r') \<or>
              chunks r' = take (length (chunks r')) (chunks r)) \<and>
             (stream_ended r \<and> stream_ended r' \<longrightarrow> chunks r = chunks r')"
    by auto
qed

theorem download_stream_by_size_witness:
  "sizeParam \<lparr>query_host = None, query_size = Some (QStr (js ''999999999'')), body = BodyUndefined\<rparr> =
     Inr (Fin 999999999) \<and>
   sizeParam \<lparr>query_host = None, query_size = Some (QStr (js ''52428800'')), body = BodyUndefined\<rparr> =
     Inr (Fin 52428800) \<and>
   clamp_size (Fin 999999999) = clamp_size (Fin 52428800) \<and>
   (\<exists>r r'. download_handler (\<lambda>k. True) 0
             \<lparr>query_host = None, query_size = Some (QStr (js ''999999999'')), body = BodyUndefined\<rparr> =
             Some (Inr r) \<and>
           download_handler (\<lambda>k. False) 800
             \<lparr>query_host = None, query_size = Some (QStr (js ''52428800'')), body = BodyUndefined\<rparr> =
             Some (Inr r') \<and>
           stream_ended r \<and> stream_ended r' \<and> chunks r = chunks r' \<and> distinct_adj (chunks r) \<and>
           length (concat (chunks r)) = 52428800)"
proof -
  let ?a = "\<lparr>query_host = None, query_size = Some (QStr (js ''999999999'')), body = BodyUndefined\<rparr>"
  let ?b = "\<lparr>query_host = None, query_size = Some (QStr (js ''52428800'')), body = BodyUndefined\<rparr>"
  note sa = download_examples(1)
  note sb = download_examples(2)
  have e: "clamp_size (Fin 999999999) = clamp_size (Fin 52428800)"
    by (simp only: clamp_examples)
  from download_stream_by_size [of ?a "Fin 999999999" ?b "Fin 52428800" "\<lambda>k. True" 0 "\<lambda>k. False" 800]
    sa sb e
  obtain r r' where
    r: "download_handler (\<lambda>k. True) 0 ?a = Some (Inr r)"
       "download_handler (\<lambda>k. False) 800 ?b = Some (Inr r')"
       "distinct_adj (chunks r)" "stream_ended r \<and> stream_ended r' \<longrightarrow> chunks r = chunks r'"
    by blast
  from download_clamped [OF sa clamp_examples(1), of "\<lambda>k. True" 0] r(1)
  have ea: "stream_ended r" "length (concat (chunks r)) = nat \<lfloor>52428800::rat\<rfloor>" by auto
  from download_clamped [OF sb clamp_examples(2), of "\<lambda>k. False" 800] r(2)
  have eb: "stream_ended r'" by auto
  have "length (concat (chunks r)) = 52428800" using ea(2) by simp
  with r ea(1) eb sa sb e show ?thesis by blast
qed

end
